theory Spec2Isabelle
  imports Main "HOL-Library.Word"
begin

unbundle bit_operations_syntax

section \<open>The Fixposition driver: outbound encoder, converter registry, read cycle\<close>

text \<open>
  A shallow embedding of \<^verbatim>\<open>fixposition_driver_lib/src/fixposition_driver.cpp\<close>.
  Member variables of \<^verbatim>\<open>FixpositionDriver\<close> that a function reads or writes are
  arguments and results of its model. Functions and declarations of the library that the
  file uses but does not define (\<^verbatim>\<open>IsNovMessage\<close>, \<^verbatim>\<open>IsNmeaMessage\<close>,
  \<^verbatim>\<open>SplitMessage\<close>, \<^verbatim>\<open>nov_crc32\<close>) are parameters of the models.
\<close>

subsection \<open>Transport kind\<close>

text \<open>
  \<^verbatim>\<open>params_.fp_output.type\<close>. The code tests it against \<^verbatim>\<open>INPUT_TYPE::TCP\<close> and
  \<^verbatim>\<open>INPUT_TYPE::SERIAL\<close> and has a branch for every other value.
\<close>

datatype INPUT_TYPE = TCP | SERIAL | UNKNOWN

subsection \<open>The outbound wheel-speed frame\<close>

text \<open>
  Modelled from the spec: the struct of \<^verbatim>\<open>rawdmi_\<close> is declared in
  \<^verbatim>\<open>fixposition_driver.hpp\<close>, which is not among the sources. The fields are the ones
  the constructor and \<^verbatim>\<open>WsCallback\<close> assign, in the order and with the widths of the
  spec's frame layout: sync(3), payloadLen(1), msgId(2), week number (u16), time of week,
  four integer wheel-speed fields, mask (u16). The wheel speeds arrive as C \<^verbatim>\<open>int\<close>.
\<close>

record NovRawDmi =
  head1 :: "8 word"
  head2 :: "8 word"
  head3 :: "8 word"
  payloadLen :: "8 word"
  msgId :: "16 word"
  wno :: "16 word"
  tow :: "32 word"
  dmi1 :: "32 word"
  dmi2 :: "32 word"
  dmi3 :: "32 word"
  dmi4 :: "32 word"
  mask :: "16 word"

text \<open>The value the constructor \<^verbatim>\<open>FixpositionDriver::FixpositionDriver\<close> gives it.\<close>

definition rawdmi_init :: NovRawDmi where
  "rawdmi_init =
     \<lparr>head1 = 0xaa, head2 = 0x44, head3 = 0x13, payloadLen = 20, msgId = 2269,
      wno = 0, tow = 0, dmi1 = 0, dmi2 = 0, dmi3 = 0, dmi4 = 0, mask = 0\<rparr>"

text \<open>
  \<^verbatim>\<open>message[]\<close> holds the memory image of \<^verbatim>\<open>rawdmi_\<close> followed by the checksum of that
  image. The image is fixed field by field by the struct's value, so the model keeps the
  struct's value as the body; \<open>nov_crc32\<close> stands for the checksum of the image.
\<close>

record message =
  body :: NovRawDmi
  checksum :: "32 word"

text \<open>What \<^verbatim>\<open>WsCallback\<close> hands to the transport: \<^verbatim>\<open>send\<close> on TCP, \<^verbatim>\<open>write\<close> on serial.\<close>

datatype transport_call = send_call message | write_call message

text \<open>
  The assignments of \<^verbatim>\<open>WsCallback\<close> to \<^verbatim>\<open>rawdmi_\<close>, by the number of readings;
  \<open>None\<close> is the \<^verbatim>\<open>else { return; }\<close> branch.
\<close>

definition fill_rawdmi :: "32 word list \<Rightarrow> NovRawDmi \<Rightarrow> NovRawDmi option" where
  "fill_rawdmi speeds r =
     (if length speeds = 1 then
        Some (r\<lparr>dmi1 := speeds ! 0,
                mask := push_bit 0 1 OR push_bit 1 0 OR push_bit 2 0 OR push_bit 3 0\<rparr>)
      else if length speeds = 2 then
        Some (r\<lparr>dmi1 := speeds ! 0, dmi2 := speeds ! 1,
                mask := push_bit 0 1 OR push_bit 1 1 OR push_bit 2 0 OR push_bit 3 0
                        OR push_bit 11 1\<rparr>)
      else if length speeds = 4 then
        Some (r\<lparr>dmi1 := speeds ! 0, dmi2 := speeds ! 1, dmi3 := speeds ! 2,
                dmi4 := speeds ! 3,
                mask := push_bit 0 1 OR push_bit 1 1 OR push_bit 2 1 OR push_bit 3 1\<rparr>)
      else None)"

text \<open>
  \<^verbatim>\<open>WsCallback\<close>: the new value of \<^verbatim>\<open>rawdmi_\<close> and the call made on the transport, if
  any. With a transport kind that is neither TCP nor serial the struct is updated and
  nothing is written.
\<close>

definition WsCallback ::
  "(NovRawDmi \<Rightarrow> 32 word) \<Rightarrow> INPUT_TYPE \<Rightarrow> 32 word list \<Rightarrow> NovRawDmi
     \<Rightarrow> NovRawDmi \<times> transport_call option" where
  "WsCallback nov_crc32 ty speeds rawdmi =
     (case fill_rawdmi speeds rawdmi of
        None \<Rightarrow> (rawdmi, None)
      | Some r \<Rightarrow>
          (let msg = \<lparr>body = r, checksum = nov_crc32 r\<rparr> in
           case ty of
             TCP \<Rightarrow> (r, Some (send_call msg))
           | SERIAL \<Rightarrow> (r, Some (write_call msg))
           | UNKNOWN \<Rightarrow> (r, None)))"

text \<open>
  A history of encode calls on one driver: the struct is a member, so each call starts
  from the value the previous one left. The result lists what each call wrote.
\<close>

fun WsCallbacks ::
  "(NovRawDmi \<Rightarrow> 32 word) \<Rightarrow> INPUT_TYPE \<Rightarrow> 32 word list list \<Rightarrow> NovRawDmi
     \<Rightarrow> NovRawDmi \<times> transport_call option list" where
  "WsCallbacks nov_crc32 ty [] rawdmi = (rawdmi, [])"
| "WsCallbacks nov_crc32 ty (speeds # rest) rawdmi =
     (case WsCallback nov_crc32 ty speeds rawdmi of
        (r, out) \<Rightarrow>
          (case WsCallbacks nov_crc32 ty rest r of (r', outs) \<Rightarrow> (r', out # outs)))"

text \<open>
  Two values of the struct with the same sync bytes, length, message id and time fields:
  the fields \<^verbatim>\<open>WsCallback\<close> never assigns.
\<close>

definition same_header :: "NovRawDmi \<Rightarrow> NovRawDmi \<Rightarrow> bool" where
  "same_header r1 r2 \<longleftrightarrow>
     head1 r1 = head1 r2 \<and> head2 r1 = head2 r2 \<and> head3 r1 = head3 r2 \<and>
     payloadLen r1 = payloadLen r2 \<and> msgId r1 = msgId r2 \<and> wno r1 = wno r2 \<and> tow r1 = tow r2"

text \<open>The message of a transport call.\<close>

fun sent :: "transport_call \<Rightarrow> message" where
  "sent (send_call m) = m"
| "sent (write_call m) = m"

subsection \<open>The converter registry\<close>

text \<open>
  The converter classes \<^verbatim>\<open>InitializeConverters\<close> constructs; \<^verbatim>\<open>ImuConverter\<close> takes
  a flag. A converter object is identified by its place in the order of construction, so
  that a newly constructed object differs from every earlier one.
\<close>

datatype converter_class = OdometryConverter | TfConverter | LlhConverter | ImuConverter bool

record converter =
  cls :: converter_class
  obj :: nat

text \<open>
  \<^verbatim>\<open>a_converters_\<close> maps a name to a \<^verbatim>\<open>unique_ptr\<close>: a key is absent (\<open>None\<close>), present
  with a null pointer (\<open>Some None\<close>) or present with a converter. The field is written \<open>a_converters\<close> here.
\<close>

type_synonym converters = "string \<rightharpoonup> converter option"

record registry =
  a_converters :: converters
  constructed :: nat

definition registry_init :: registry where
  "registry_init = \<lparr>a_converters = Map.empty, constructed = 0\<rparr>"

text \<open>\<^verbatim>\<open>a_converters_[key] = std::unique_ptr<C>(new C(...))\<close>.\<close>

definition assign_new :: "string \<Rightarrow> converter_class \<Rightarrow> registry \<Rightarrow> registry" where
  "assign_new key c g =
     \<lparr>a_converters = (a_converters g)(key \<mapsto> Some \<lparr>cls = c, obj = constructed g\<rparr>),
      constructed = Suc (constructed g)\<rparr>"

text \<open>One round of the loop of \<^verbatim>\<open>InitializeConverters\<close>.\<close>

definition register_format :: "string \<Rightarrow> registry \<Rightarrow> registry" where
  "register_format format g =
     (if format = ''ODOMETRY'' then
        assign_new ''TF'' TfConverter (assign_new ''ODOMETRY'' OdometryConverter g)
      else if format = ''LLH'' then assign_new ''LLH'' LlhConverter g
      else if format = ''RAWIMU'' then assign_new ''RAWIMU'' (ImuConverter False) g
      else if format = ''CORRIMU'' then assign_new ''CORRIMU'' (ImuConverter True) g
      else if format = ''TF'' then
        (if a_converters g ''TF'' = None then assign_new ''TF'' TfConverter g else g)
      else g)"

text \<open>The loop over \<^verbatim>\<open>params_.fp_output.formats\<close>.\<close>

fun register_formats :: "string list \<Rightarrow> registry \<Rightarrow> registry" where
  "register_formats [] g = g"
| "register_formats (format # formats) g = register_formats formats (register_format format g)"

text \<open>\<^verbatim>\<open>InitializeConverters\<close>: the return value and the registry it leaves.\<close>

definition InitializeConverters :: "string list \<Rightarrow> registry \<Rightarrow> bool \<times> registry" where
  "InitializeConverters formats g =
     (let g' = register_formats formats g in (a_converters g' \<noteq> Map.empty, g'))"

text \<open>The class \<^verbatim>\<open>InitializeConverters\<close> constructs under each name it registers.\<close>

definition category_class :: "string \<Rightarrow> converter_class option" where
  "category_class key =
     (if key = ''ODOMETRY'' then Some OdometryConverter
      else if key = ''TF'' then Some TfConverter
      else if key = ''LLH'' then Some LlhConverter
      else if key = ''RAWIMU'' then Some (ImuConverter False)
      else if key = ''CORRIMU'' then Some (ImuConverter True)
      else None)"

text \<open>
  One converter per registered name: every entry of the map holds a converter (no null
  pointer) of the class of its name, constructed before now, and no object stands under
  two names.
\<close>

definition registry_ok :: "registry \<Rightarrow> bool" where
  "registry_ok g \<longleftrightarrow>
     (\<forall>key p. a_converters g key = Some p \<longrightarrow>
        (\<exists>c. p = Some c \<and> category_class key = Some (cls c) \<and> obj c < constructed g)) \<and>
     (\<forall>key key' c c'.
        a_converters g key = Some (Some c) \<and> a_converters g key' = Some (Some c') \<and>
        obj c = obj c' \<longrightarrow> key = key')"

subsection \<open>Dispatch of an ascii frame\<close>

datatype error = out_of_range

text \<open>
  What a read cycle does that can be seen from outside, in order: the calls of the two
  matchers with the offset and the result, the frames handed to the two dispatchers, the
  calls of a converter's \<^verbatim>\<open>ConvertTokens\<close>, and the one-byte advances of the scan.
\<close>

datatype event =
    Nov_tried nat int
  | Nov_frame string
  | Nmea_tried nat int
  | Nmea_frame string
  | ConvertTokens converter "string list"
  | Advance nat

text \<open>\<^verbatim>\<open>std::string::npos\<close> and \<^verbatim>\<open>msg.find_last_of("*")\<close>, of type \<^verbatim>\<open>size_t\<close>.\<close>

definition npos :: "64 word" where
  "npos = - 1"

definition find_last_of :: "string \<Rightarrow> char \<Rightarrow> 64 word" where
  "find_last_of s c =
     (if c \<in> set s then of_nat (length s - 1 - length (takeWhile (\<lambda>x. x \<noteq> c) (rev s)))
      else npos)"

text \<open>
  \<^verbatim>\<open>s.substr(pos, count)\<close>: throws when \<open>pos\<close> is past the end, and stops at the end of
  the string otherwise.
\<close>

definition substr :: "string \<Rightarrow> 64 word \<Rightarrow> 64 word \<Rightarrow> error + string" where
  "substr s pos count =
     (if unat pos > length s then Inl out_of_range
      else Inr (take (unat count) (drop (unat pos) s)))"

text \<open>\<^verbatim>\<open>tokens.at(i)\<close>.\<close>

definition at :: "'a list \<Rightarrow> nat \<Rightarrow> error + 'a" where
  "at xs i = (if i < length xs then Inr (xs ! i) else Inl out_of_range)"

text \<open>
  \<^verbatim>\<open>a_converters_[header]\<close>: \<^verbatim>\<open>operator[]\<close> of the map inserts a null pointer under a
  key that is absent, and returns the pointer stored under the key.
\<close>

definition subscript :: "converters \<Rightarrow> string \<Rightarrow> converter option \<times> converters" where
  "subscript m key =
     (case m key of None \<Rightarrow> (None, m(key \<mapsto> None)) | Some p \<Rightarrow> (p, m))"

text \<open>
  \<^verbatim>\<open>NmeaConvertAndPublish\<close>: the exception thrown, or the calls made and the map
  \<^verbatim>\<open>a_converters_\<close> as the call leaves it. \<open>SplitMessage\<close> is the splitter of
  \<^verbatim>\<open>helper.hpp\<close>, given the text and the delimiters. \<open>sentence_tokens\<close> is the
  first part of the function: the text between the first character and the last \<open>*\<close>,
  split at the commas.
\<close>

definition sentence_tokens ::
  "(string \<Rightarrow> string \<Rightarrow> string list) \<Rightarrow> string \<Rightarrow> error + string list" where
  "sentence_tokens SplitMessage msg =
     (let star_pos = find_last_of msg (CHR ''*'') in
      case substr msg 1 (star_pos - 1) of
        Inl e \<Rightarrow> Inl e
      | Inr text \<Rightarrow> Inr (SplitMessage text '',''))"

definition NmeaConvertAndPublish ::
  "(string \<Rightarrow> string \<Rightarrow> string list) \<Rightarrow> string \<Rightarrow> converters
     \<Rightarrow> error + (event list \<times> converters)" where
  "NmeaConvertAndPublish SplitMessage msg m =
     (case sentence_tokens SplitMessage msg of
        Inl e \<Rightarrow> Inl e
      | Inr tokens \<Rightarrow>
          (case at tokens 0 of
             Inl e \<Rightarrow> Inl e
           | Inr t0 \<Rightarrow>
               if t0 \<noteq> ''FP'' then Inr ([], m)
               else
                 (case at tokens 1 of
                    Inl e \<Rightarrow> Inl e
                  | Inr header \<Rightarrow>
                      (case subscript m header of
                         (None, m') \<Rightarrow> Inr ([], m')
                       | (Some c, m') \<Rightarrow> Inr ([ConvertTokens c tokens], m')))))"

subsection \<open>The read cycle\<close>

text \<open>Puts the events of one round of the loop in front of those of the rest.\<close>

fun emit :: "event list \<Rightarrow> event list \<times> 'a \<Rightarrow> event list \<times> 'a" where
  "emit es (evs, r) = (es @ evs, r)"

text \<open>
  The loop \<^verbatim>\<open>while (start_id < rv)\<close> of \<^verbatim>\<open>ReadAndPublish\<close>. \<open>buf\<close> holds the \<open>rv\<close>
  bytes received; a matcher is given the bytes from \<open>start_id\<close> to the end of them
  (\<^verbatim>\<open>&readBuf[start_id]\<close> with size \<^verbatim>\<open>rv - start_id\<close>) and answers with a size, 0 or a
  negative number. The result is the events of the pass, the exception that ended it (if
  one did) and the map \<^verbatim>\<open>a_converters_\<close>. \<^verbatim>\<open>NovConvertAndPublish\<close> hands the frame to
  observers outside this file: its call is recorded with the frame. A frame is cut from
  the bytes received: a matcher answers with no more than the size it was given.
\<close>

function scan ::
  "(string \<Rightarrow> int) \<Rightarrow> (string \<Rightarrow> int) \<Rightarrow> (string \<Rightarrow> string \<Rightarrow> string list) \<Rightarrow> string \<Rightarrow> nat
     \<Rightarrow> converters \<Rightarrow> event list \<times> error option \<times> converters" where
  "scan IsNovMessage IsNmeaMessage SplitMessage buf start_id m =
     (if start_id < length buf then
        (let msg_size = IsNovMessage (drop start_id buf) in
         if msg_size > 0 then
           emit [Nov_tried start_id msg_size, Nov_frame (take (nat msg_size) (drop start_id buf))]
             (scan IsNovMessage IsNmeaMessage SplitMessage buf (start_id + nat msg_size) m)
         else if msg_size < 0 then ([Nov_tried start_id msg_size], None, m)
         else
           (let msg_size2 = IsNmeaMessage (drop start_id buf) in
            if msg_size2 > 0 then
              (let msg = take (nat msg_size2) (drop start_id buf) in
               case NmeaConvertAndPublish SplitMessage msg m of
                 Inl e \<Rightarrow>
                   ([Nov_tried start_id msg_size, Nmea_tried start_id msg_size2, Nmea_frame msg],
                    Some e, m)
               | Inr (calls, m') \<Rightarrow>
                   emit ([Nov_tried start_id msg_size, Nmea_tried start_id msg_size2,
                          Nmea_frame msg] @ calls)
                     (scan IsNovMessage IsNmeaMessage SplitMessage buf
                        (start_id + nat msg_size2) m'))
            else if msg_size2 < 0 then
              ([Nov_tried start_id msg_size, Nmea_tried start_id msg_size2], None, m)
            else
              emit [Nov_tried start_id msg_size, Nmea_tried start_id msg_size2, Advance start_id]
                (scan IsNovMessage IsNmeaMessage SplitMessage buf (start_id + 1) m)))
      else ([], None, m))"
  by pat_completeness auto
termination
  by (relation "measure (\<lambda>(nov, nmea, split, buf, start_id, m). length buf - start_id)") auto

declare scan.simps [simp del]

text \<open>
  What \<^verbatim>\<open>recv\<close> or \<^verbatim>\<open>read\<close> did: its return value, whether \<^verbatim>\<open>errno\<close> is
  \<^verbatim>\<open>EAGAIN\<close>, and the contents of \<^verbatim>\<open>readBuf\<close> afterwards.
\<close>

record os_read =
  ret :: int
  errno_EAGAIN :: bool
  readBuf :: string

text \<open>
  \<^verbatim>\<open>ReadAndPublish\<close>: the events, the value returned (or the exception that left the
  function) and the map \<^verbatim>\<open>a_converters_\<close>.
\<close>

definition ReadAndPublish ::
  "(string \<Rightarrow> int) \<Rightarrow> (string \<Rightarrow> int) \<Rightarrow> (string \<Rightarrow> string \<Rightarrow> string list) \<Rightarrow> INPUT_TYPE
     \<Rightarrow> os_read \<Rightarrow> converters \<Rightarrow> event list \<times> (error + bool) \<times> converters" where
  "ReadAndPublish IsNovMessage IsNmeaMessage SplitMessage ty io m =
     (let rv = (if ty = TCP then ret io else if ty = SERIAL then ret io else 0) in
      if rv = 0 then ([], Inr False, m)
      else if rv < 0 \<and> errno_EAGAIN io then ([], Inr True, m)
      else if rv < 0 then ([], Inr False, m)
      else
        (case scan IsNovMessage IsNmeaMessage SplitMessage (take (nat rv) (readBuf io)) 0 m of
           (evs, None, m') \<Rightarrow> (evs, Inr True, m')
         | (evs, Some e, m') \<Rightarrow> (evs, Inl e, m')))"

text \<open>
  What happens on the line while a read waits, and what the read of each transport
  returns for it, by the way the source opens the transport. On TCP \<^verbatim>\<open>ReadAndPublish\<close>
  calls \<^verbatim>\<open>recv\<close> with \<^verbatim>\<open>MSG_DONTWAIT\<close>: with no byte there it returns at once, -1 with
  \<^verbatim>\<open>errno\<close> set to \<^verbatim>\<open>EAGAIN\<close>. The serial port is opened by \<^verbatim>\<open>CreateSerialConnection\<close>
  with \<^verbatim>\<open>O_RDWR | O_NOCTTY\<close>, without \<^verbatim>\<open>O_NONBLOCK\<close>, and set to \<^verbatim>\<open>c_cc[VMIN] = 0\<close> and
  \<^verbatim>\<open>c_cc[VTIME] = 50\<close>: \<^verbatim>\<open>read\<close> returns the bytes as soon as some are there, and 0 when
  five seconds pass with none. Both calls return 0 at the end of the stream and -1 with
  another \<^verbatim>\<open>errno\<close> on an error. A read that brings bytes brings at least one.
\<close>

datatype line_event = Bytes string | No_data | Peer_closed | Io_error

fun tcp_recv :: "line_event \<Rightarrow> os_read" where
  "tcp_recv (Bytes bytes) = \<lparr>ret = int (length bytes), errno_EAGAIN = False, readBuf = bytes\<rparr>"
| "tcp_recv No_data = \<lparr>ret = - 1, errno_EAGAIN = True, readBuf = []\<rparr>"
| "tcp_recv Peer_closed = \<lparr>ret = 0, errno_EAGAIN = False, readBuf = []\<rparr>"
| "tcp_recv Io_error = \<lparr>ret = - 1, errno_EAGAIN = False, readBuf = []\<rparr>"

fun serial_read :: "line_event \<Rightarrow> os_read" where
  "serial_read (Bytes bytes) = \<lparr>ret = int (length bytes), errno_EAGAIN = False, readBuf = bytes\<rparr>"
| "serial_read No_data = \<lparr>ret = 0, errno_EAGAIN = False, readBuf = []\<rparr>"
| "serial_read Peer_closed = \<lparr>ret = 0, errno_EAGAIN = False, readBuf = []\<rparr>"
| "serial_read Io_error = \<lparr>ret = - 1, errno_EAGAIN = False, readBuf = []\<rparr>"

text \<open>
  The caller's polling loop: one \<^verbatim>\<open>ReadAndPublish\<close> per read, as long as it returns
  true (\<^verbatim>\<open>RunOnce\<close> closes the connection when it returns false). \<open>deliver\<close> is a read
  that brings the given bytes.
\<close>

definition deliver :: "string \<Rightarrow> os_read" where
  "deliver bytes = \<lparr>ret = int (length bytes), errno_EAGAIN = False, readBuf = bytes\<rparr>"

fun read_cycles ::
  "(string \<Rightarrow> int) \<Rightarrow> (string \<Rightarrow> int) \<Rightarrow> (string \<Rightarrow> string \<Rightarrow> string list) \<Rightarrow> INPUT_TYPE
     \<Rightarrow> os_read list \<Rightarrow> converters \<Rightarrow> event list \<times> (error + bool) \<times> converters" where
  "read_cycles IsNovMessage IsNmeaMessage SplitMessage ty [] m = ([], Inr True, m)"
| "read_cycles IsNovMessage IsNmeaMessage SplitMessage ty (io # ios) m =
     (case ReadAndPublish IsNovMessage IsNmeaMessage SplitMessage ty io m of
        (evs, Inr True, m') \<Rightarrow>
          emit evs (read_cycles IsNovMessage IsNmeaMessage SplitMessage ty ios m')
      | (evs, r, m') \<Rightarrow> (evs, r, m'))"

text \<open>The decoded frames among the events, in order.\<close>

fun is_frame :: "event \<Rightarrow> bool" where
  "is_frame (Nov_frame _) = True"
| "is_frame (Nmea_frame _) = True"
| "is_frame _ = False"

definition frames :: "event list \<Rightarrow> event list" where
  "frames evs = filter is_frame evs"

text \<open>A matcher's report of an incomplete frame, and a one-byte advance, among the events.\<close>

fun is_incomplete :: "event \<Rightarrow> bool" where
  "is_incomplete (Nov_tried _ k) = (k < 0)"
| "is_incomplete (Nmea_tried _ k) = (k < 0)"
| "is_incomplete _ = False"



text \<open>
  The events of \<open>n\<close> rounds of the loop from offset \<open>start_id\<close> on in which both matchers
  answer 0: two calls and a one-byte advance each.
\<close>

definition skip_events :: "nat \<Rightarrow> nat \<Rightarrow> event list" where
  "skip_events start_id n =
     concat (map (\<lambda>i. [Nov_tried i 0, Nmea_tried i 0, Advance i]) [start_id..<start_id + n])"

text \<open>
  The order of two events that follow one another in a pass: a call of the ascii matcher
  comes directly after a call of the binary matcher at the same offset that answered 0,
  and nothing comes after a call of the binary matcher that answered "incomplete".
\<close>

definition in_order :: "event \<Rightarrow> event \<Rightarrow> bool" where
  "in_order x y \<longleftrightarrow>
     (case y of Nmea_tried i k \<Rightarrow> x = Nov_tried i 0 | _ \<Rightarrow> True) \<and>
     (case x of Nov_tried i k \<Rightarrow> 0 \<le> k | _ \<Rightarrow> True)"

subsection \<open>Matchers and splitter after the spec\<close>

text \<open>
  Modelled from the spec: \<^verbatim>\<open>IsNmeaMessage\<close> is declared in \<^verbatim>\<open>parser.hpp\<close>, which is not
  among the sources. The spec's ascii match: a start marker (\<open>$\<close>) at the offset, else
  "not a frame here" (0); a start marker and no checksum delimiter (\<open>*\<close>) yet is
  "incomplete" (negative); the frame ends with the delimiter and the two characters of the
  checksum, and is incomplete while those are not there.
\<close>

definition IsNmeaMessage_spec :: "string \<Rightarrow> int" where
  "IsNmeaMessage_spec buf =
     (if take 1 buf \<noteq> ''$'' then 0
      else if CHR ''*'' \<notin> set buf then - 1
      else
        (let star = length (takeWhile (\<lambda>c. c \<noteq> CHR ''*'') buf) in
         if length buf < star + 3 then - 1 else int (star + 3)))"

text \<open>
  Modelled from the spec: \<^verbatim>\<open>IsNovMessage\<close> is declared in \<^verbatim>\<open>parser.hpp\<close>, which is not
  among the sources. The spec's binary match: the three sync bytes at the offset, else
  "not a frame here" (0); with the marker there, "incomplete" (negative) until the buffer
  holds header, payload and trailer; then the frame of \<open>3+1+2+payload-length+4\<close> bytes when
  the trailer is the checksum of what precedes it, else "not a frame here". The checksum
  function is a parameter. The sync bytes are those the constructor writes into the header
  of the outbound frame, the one marker the sources name.
\<close>

definition nov_sync :: string where
  "nov_sync = [CHR 0xAA, CHR 0x44, CHR 0x13]"

definition IsNovMessage_spec :: "(string \<Rightarrow> string) \<Rightarrow> string \<Rightarrow> int" where
  "IsNovMessage_spec crc32 buf =
     (if take 3 buf \<noteq> nov_sync then 0
      else if length buf < 4 then - 1
      else
        (let n = 3 + 1 + 2 + of_char (buf ! 3) in
         if length buf < n + 4 then - 1
         else if take 4 (drop n buf) = crc32 (take n buf) then int (n + 4)
         else 0))"

text \<open>
  Modelled from the spec: \<^verbatim>\<open>SplitMessage\<close> is declared in \<^verbatim>\<open>helper.hpp\<close>, which is not
  among the sources. The spec's decoder splits the text on the delimiter; a text without
  delimiter is one token.
\<close>

fun SplitMessage_spec :: "string \<Rightarrow> string \<Rightarrow> string list" where
  "SplitMessage_spec [] delims = [[]]"
| "SplitMessage_spec (c # cs) delims =
     (if c \<in> set delims then [] # SplitMessage_spec cs delims
      else (case SplitMessage_spec cs delims of
              t # ts \<Rightarrow> (c # t) # ts
            | [] \<Rightarrow> [[c]]))"

section \<open>Properties\<close>

subsection \<open>The outbound encoder\<close>

lemma below16: "k < 16 \<Longrightarrow> k \<in> {0,1,2,3,4,5,6,7,8,9,10,11,12,13,14,15::nat}"
  unfolding insert_iff empty_iff by presburger

lemma mask1_bits:
  "bit (push_bit 0 1 OR push_bit 1 0 OR push_bit 2 0 OR push_bit 3 0 :: 16 word) k \<longleftrightarrow> k = 0"
  by (simp add: bit_1_iff)

lemma mask2_bits:
  "bit (push_bit 0 1 OR push_bit 1 1 OR push_bit 2 0 OR push_bit 3 0 OR push_bit 11 1 :: 16 word) k
     \<longleftrightarrow> k = 0 \<or> k = 1 \<or> k = 11"
proof (cases "k < 16")
  case True
  from below16 [OF this] show ?thesis
    by (elim insertE emptyE) simp_all
next
  case False
  then show ?thesis
    using bit_imp_le_length [of "push_bit 0 1 OR push_bit 1 1 OR push_bit 2 0 OR push_bit 3 0
      OR push_bit 11 1 :: 16 word" k]
    by auto
qed

lemma mask4_bits:
  "bit (push_bit 0 1 OR push_bit 1 1 OR push_bit 2 1 OR push_bit 3 1 :: 16 word) k \<longleftrightarrow> k < 4"
proof (cases "k < 16")
  case True
  from below16 [OF this] show ?thesis
    by (elim insertE emptyE) simp_all
next
  case False
  then show ?thesis
    using bit_imp_le_length [of "push_bit 0 1 OR push_bit 1 1 OR push_bit 2 1 OR push_bit 3 1
      :: 16 word" k]
    by auto
qed

lemma WsCallback_sends_struct:
  assumes "WsCallback nov_crc32 ty speeds rawdmi = (r', Some c)"
  shows "body (sent c) = r'" and "fill_rawdmi speeds rawdmi = Some r'"
  using assms
  by (auto simp: WsCallback_def Let_def split: option.splits INPUT_TYPE.splits)

lemma WsCallback_writes:
  assumes "WsCallback nov_crc32 ty speeds rawdmi = (r', out)"
    and "fill_rawdmi speeds rawdmi \<noteq> None" and "ty \<noteq> UNKNOWN"
  shows "out \<noteq> None"
  using assms
  by (auto simp: WsCallback_def Let_def split: option.splits INPUT_TYPE.splits)

lemma WsCallback_skips:
  assumes "WsCallback nov_crc32 ty speeds rawdmi = (r', out)"
    and "fill_rawdmi speeds rawdmi = None"
  shows "out = None" and "r' = rawdmi"
  using assms by (auto simp: WsCallback_def)

lemma fill_rawdmi_None:
  "fill_rawdmi speeds r = None \<longleftrightarrow> length speeds \<noteq> 1 \<and> length speeds \<noteq> 2 \<and> length speeds \<noteq> 4"
  by (simp add: fill_rawdmi_def)

lemma fill_rawdmi_mask:
  assumes "fill_rawdmi speeds r = Some r'"
  shows "length speeds = 1 \<Longrightarrow> bit (mask r') k \<longleftrightarrow> k = 0"
    and "length speeds = 2 \<Longrightarrow> bit (mask r') k \<longleftrightarrow> k = 0 \<or> k = 1 \<or> k = 11"
    and "length speeds = 4 \<Longrightarrow> bit (mask r') k \<longleftrightarrow> k < 4"
proof -
  show "length speeds = 1 \<Longrightarrow> bit (mask r') k \<longleftrightarrow> k = 0"
    using assms mask1_bits [of k] by (auto simp: fill_rawdmi_def simp del: push_bit_numeral push_bit_of_1 push_bit_of_0)
  show "length speeds = 2 \<Longrightarrow> bit (mask r') k \<longleftrightarrow> k = 0 \<or> k = 1 \<or> k = 11"
    using assms mask2_bits [of k] by (auto simp: fill_rawdmi_def)
  show "length speeds = 4 \<Longrightarrow> bit (mask r') k \<longleftrightarrow> k < 4"
    using assms mask4_bits [of k] by (auto simp: fill_rawdmi_def)
qed

text \<open>
  C3. Whatever a call of \<open>WsCallback\<close> writes to the transport carries the struct as the
  call leaves it. With one reading the mask of the message written has bit 0 set and no
  other; with two readings bits 0, 1 and 11 and no other; with four readings bits 0 to 3
  and no other; and on TCP and on serial a message is written in these three cases. With
  any other number of readings nothing is written and the struct is unchanged.
\<close>

theorem WsCallback_mask_by_count:
  assumes "WsCallback nov_crc32 ty speeds rawdmi = (r', out)"
  shows "(length speeds = 1 \<longrightarrow>
            (ty \<noteq> UNKNOWN \<longrightarrow> out \<noteq> None) \<and>
            (\<forall>c k. out = Some c \<longrightarrow> (bit (mask (body (sent c))) k \<longleftrightarrow> k = 0))) \<and>
         (length speeds = 2 \<longrightarrow>
            (ty \<noteq> UNKNOWN \<longrightarrow> out \<noteq> None) \<and>
            (\<forall>c k. out = Some c \<longrightarrow>
               (bit (mask (body (sent c))) k \<longleftrightarrow> k = 0 \<or> k = 1 \<or> k = 11))) \<and>
         (length speeds = 4 \<longrightarrow>
            (ty \<noteq> UNKNOWN \<longrightarrow> out \<noteq> None) \<and>
            (\<forall>c k. out = Some c \<longrightarrow> (bit (mask (body (sent c))) k \<longleftrightarrow> k < 4))) \<and>
         (length speeds \<noteq> 1 \<and> length speeds \<noteq> 2 \<and> length speeds \<noteq> 4 \<longrightarrow>
            out = None \<and> r' = rawdmi)"
proof (intro conjI impI allI)
  assume n: "length speeds \<noteq> 1 \<and> length speeds \<noteq> 2 \<and> length speeds \<noteq> 4"
  then have "fill_rawdmi speeds rawdmi = None" by (simp add: fill_rawdmi_None)
  from WsCallback_skips [OF assms this] show "out = None" and "r' = rawdmi" .
next
  assume "length speeds = 1" and "ty \<noteq> UNKNOWN"
  then show "out \<noteq> None"
    using WsCallback_writes [OF assms] by (simp add: fill_rawdmi_None)
next
  assume "length speeds = 2" and "ty \<noteq> UNKNOWN"
  then show "out \<noteq> None"
    using WsCallback_writes [OF assms] by (simp add: fill_rawdmi_None)
next
  assume "length speeds = 4" and "ty \<noteq> UNKNOWN"
  then show "out \<noteq> None"
    using WsCallback_writes [OF assms] by (simp add: fill_rawdmi_None)
next
  fix c k assume l: "length speeds = 1" and o: "out = Some c"
  from assms o have "WsCallback nov_crc32 ty speeds rawdmi = (r', Some c)" by simp
  from WsCallback_sends_struct [OF this] fill_rawdmi_mask(1) [OF _ l]
  show "bit (mask (body (sent c))) k \<longleftrightarrow> k = 0" by simp
next
  fix c k assume l: "length speeds = 2" and o: "out = Some c"
  from assms o have "WsCallback nov_crc32 ty speeds rawdmi = (r', Some c)" by simp
  from WsCallback_sends_struct [OF this] fill_rawdmi_mask(2) [OF _ l]
  show "bit (mask (body (sent c))) k \<longleftrightarrow> k = 0 \<or> k = 1 \<or> k = 11" by simp
next
  fix c k assume l: "length speeds = 4" and o: "out = Some c"
  from assms o have "WsCallback nov_crc32 ty speeds rawdmi = (r', Some c)" by simp
  from WsCallback_sends_struct [OF this] fill_rawdmi_mask(3) [OF _ l]
  show "bit (mask (body (sent c))) k \<longleftrightarrow> k < 4" by simp
qed

theorem WsCallback_mask_by_count_witness:
  "\<forall>nov_crc32.
     (\<exists>c. snd (WsCallback nov_crc32 TCP [100, 200] rawdmi_init) = Some c \<and>
          mask (body (sent c)) = 0b100000000011 \<and>
          bit (mask (body (sent c))) 11 \<and> \<not> bit (mask (body (sent c))) 2) \<and>
     WsCallback nov_crc32 SERIAL [1, 2, 3] rawdmi_init = (rawdmi_init, None)"
proof (intro allI conjI)
  fix nov_crc32 :: "NovRawDmi \<Rightarrow> 32 word"
  obtain r' out where w: "WsCallback nov_crc32 TCP [100, 200] rawdmi_init = (r', out)"
    by (cases "WsCallback nov_crc32 TCP [100, 200] rawdmi_init")
  from WsCallback_mask_by_count [OF w] obtain c where c: "out = Some c"
    and b: "\<And>k. bit (mask (body (sent c))) k \<longleftrightarrow> k = 0 \<or> k = 1 \<or> k = 11"
    by auto
  have "mask (body (sent c)) = 0b100000000011"
    using w c by (auto simp: WsCallback_def fill_rawdmi_def rawdmi_init_def)
  with w c b [of 11] b [of 2]
  show "\<exists>c. snd (WsCallback nov_crc32 TCP [100, 200] rawdmi_init) = Some c \<and>
          mask (body (sent c)) = 0b100000000011 \<and>
          bit (mask (body (sent c))) 11 \<and> \<not> bit (mask (body (sent c))) 2"
    by simp
  obtain r'' out' where w': "WsCallback nov_crc32 SERIAL [1, 2, 3] rawdmi_init = (r'', out')"
    by (cases "WsCallback nov_crc32 SERIAL [1, 2, 3] rawdmi_init")
  from WsCallback_mask_by_count [OF w'] have "out' = None \<and> r'' = rawdmi_init" by simp
  with w' show "WsCallback nov_crc32 SERIAL [1, 2, 3] rawdmi_init = (rawdmi_init, None)"
    by simp
qed


lemma WsCallbacks_snoc:
  "WsCallbacks nov_crc32 ty (history @ [speeds]) r0 =
     (case WsCallbacks nov_crc32 ty history r0 of
        (r, outs) \<Rightarrow>
          (case WsCallback nov_crc32 ty speeds r of (r', out) \<Rightarrow> (r', outs @ [out])))"
  by (induction history arbitrary: r0) (auto split: prod.splits)

lemma last_WsCallbacks:
  "last (snd (WsCallbacks nov_crc32 ty (history @ [speeds]) r0)) =
     snd (WsCallback nov_crc32 ty speeds (fst (WsCallbacks nov_crc32 ty history r0)))"
  by (simp add: WsCallbacks_snoc split: prod.splits)

lemma fill_rawdmi_same_header:
  assumes "fill_rawdmi speeds r = Some r'"
  shows "same_header r' r"
  using assms by (auto simp: fill_rawdmi_def same_header_def split: if_splits)

lemma fill_rawdmi_keeps:
  assumes "fill_rawdmi speeds r = Some r'"
  shows "length speeds = 1 \<Longrightarrow> dmi2 r' = dmi2 r \<and> dmi3 r' = dmi3 r \<and> dmi4 r' = dmi4 r"
    and "length speeds = 2 \<Longrightarrow> dmi3 r' = dmi3 r \<and> dmi4 r' = dmi4 r"
  using assms by (auto simp: fill_rawdmi_def split: if_splits)

lemma same_header_refl: "same_header r r"
  by (simp add: same_header_def)

lemma same_header_trans: "same_header r1 r2 \<Longrightarrow> same_header r2 r3 \<Longrightarrow> same_header r1 r3"
  by (simp add: same_header_def)

lemma same_header_sym: "same_header r1 r2 \<Longrightarrow> same_header r2 r1"
  by (simp add: same_header_def)

lemma WsCallback_keeps_header:
  assumes "WsCallback nov_crc32 ty speeds r = (r', out)"
  shows "same_header r' r"
proof (cases "fill_rawdmi speeds r")
  case None
  with assms show ?thesis by (simp add: WsCallback_def same_header_refl)
next
  case (Some r1)
  with assms have "r' = r1"
    by (auto simp: WsCallback_def Let_def split: INPUT_TYPE.splits)
  with fill_rawdmi_same_header [OF Some] show ?thesis by simp
qed

lemma WsCallbacks_keeps_header:
  "same_header (fst (WsCallbacks nov_crc32 ty history r)) r"
proof (induction history arbitrary: r)
  case Nil
  show ?case by (simp add: same_header_refl)
next
  case (Cons speeds history)
  obtain r1 out where w: "WsCallback nov_crc32 ty speeds r = (r1, out)"
    by (cases "WsCallback nov_crc32 ty speeds r")
  have "fst (WsCallbacks nov_crc32 ty (speeds # history) r) =
        fst (WsCallbacks nov_crc32 ty history r1)"
    using w by (simp split: prod.splits)
  with Cons [of r1] WsCallback_keeps_header [OF w] show ?case
    by (auto intro: same_header_trans)
qed

lemma update_wheels_eq:
  assumes "same_header r1 r2"
  shows "r1\<lparr>dmi1 := a, dmi2 := b, dmi3 := c, dmi4 := d, mask := e\<rparr> =
         r2\<lparr>dmi1 := a, dmi2 := b, dmi3 := c, dmi4 := d, mask := e\<rparr>"
  using assms by (intro NovRawDmi.equality) (simp_all add: same_header_def)

lemma fill_rawdmi_four:
  assumes "length speeds = 4" and "same_header r1 r2"
  shows "fill_rawdmi speeds r1 = fill_rawdmi speeds r2"
  using assms(1) update_wheels_eq [OF assms(2)] by (simp add: fill_rawdmi_def)

lemma WsCallback_cong_fill:
  assumes "fill_rawdmi speeds r1 = fill_rawdmi speeds r2"
  shows "snd (WsCallback nov_crc32 ty speeds r1) = snd (WsCallback nov_crc32 ty speeds r2)"
  using assms by (auto simp: WsCallback_def Let_def split: option.splits INPUT_TYPE.splits)

lemma last_sent:
  assumes "last (snd (WsCallbacks nov_crc32 ty (history @ [speeds]) r0)) = Some c"
  shows "\<exists>r'. WsCallback nov_crc32 ty speeds (fst (WsCallbacks nov_crc32 ty history r0)) = (r', Some c)"
proof -
  obtain r' out where w: "WsCallback nov_crc32 ty speeds (fst (WsCallbacks nov_crc32 ty history r0)) = (r', out)"
    by (cases "WsCallback nov_crc32 ty speeds (fst (WsCallbacks nov_crc32 ty history r0))")
  from assms have "out = Some c"
    unfolding last_WsCallbacks w by simp
  with w show ?thesis by simp
qed

lemma last_sent_keeps:
  assumes "last (snd (WsCallbacks nov_crc32 ty (history @ [speeds]) r0)) = Some c"
  shows "length speeds = 1 \<Longrightarrow>
           dmi2 (body (sent c)) = dmi2 (fst (WsCallbacks nov_crc32 ty history r0)) \<and>
           dmi3 (body (sent c)) = dmi3 (fst (WsCallbacks nov_crc32 ty history r0)) \<and>
           dmi4 (body (sent c)) = dmi4 (fst (WsCallbacks nov_crc32 ty history r0))"
    and "length speeds = 2 \<Longrightarrow>
           dmi3 (body (sent c)) = dmi3 (fst (WsCallbacks nov_crc32 ty history r0)) \<and>
           dmi4 (body (sent c)) = dmi4 (fst (WsCallbacks nov_crc32 ty history r0))"
proof -
  from last_sent [OF assms] obtain r'
    where w: "WsCallback nov_crc32 ty speeds (fst (WsCallbacks nov_crc32 ty history r0)) = (r', Some c)" ..
  note s = WsCallback_sends_struct [OF w]
  show "length speeds = 1 \<Longrightarrow>
           dmi2 (body (sent c)) = dmi2 (fst (WsCallbacks nov_crc32 ty history r0)) \<and>
           dmi3 (body (sent c)) = dmi3 (fst (WsCallbacks nov_crc32 ty history r0)) \<and>
           dmi4 (body (sent c)) = dmi4 (fst (WsCallbacks nov_crc32 ty history r0))"
    using fill_rawdmi_keeps(1) [OF s(2)] unfolding s(1) by simp
  show "length speeds = 2 \<Longrightarrow>
           dmi3 (body (sent c)) = dmi3 (fst (WsCallbacks nov_crc32 ty history r0)) \<and>
           dmi4 (body (sent c)) = dmi4 (fst (WsCallbacks nov_crc32 ty history r0))"
    using fill_rawdmi_keeps(2) [OF s(2)] unfolding s(1) by simp
qed

lemma last_sent_four:
  assumes "length speeds = 4" and "same_header r0 r0'"
  shows "last (snd (WsCallbacks nov_crc32 ty (history @ [speeds]) r0)) =
      last (snd (WsCallbacks nov_crc32 ty (history' @ [speeds]) r0'))"
proof -
  have "same_header (fst (WsCallbacks nov_crc32 ty history r0))
        (fst (WsCallbacks nov_crc32 ty history' r0'))"
    using assms(2) WsCallbacks_keeps_header [of nov_crc32 ty history r0]
      WsCallbacks_keeps_header [of nov_crc32 ty history' r0']
    by (blast intro: same_header_trans same_header_sym)
  from fill_rawdmi_four [OF assms(1) this] show ?thesis
    unfolding last_WsCallbacks by (rule WsCallback_cong_fill)
qed

text \<open>
  C2, as the code has it. The frame is the driver's one struct, which lives across the
  calls: a call with one reading writes the second, third and fourth wheel-speed field as
  the earlier calls left them, a call with two readings the third and fourth. Two
  histories of calls on drivers with the same header and time fields that end with the
  same four readings write the same final message.
\<close>

theorem WsCallback_reuses_struct:
  "(\<forall>c. length speeds = 1 \<and>
        last (snd (WsCallbacks nov_crc32 ty (history @ [speeds]) r0)) = Some c \<longrightarrow>
        dmi2 (body (sent c)) = dmi2 (fst (WsCallbacks nov_crc32 ty history r0)) \<and>
        dmi3 (body (sent c)) = dmi3 (fst (WsCallbacks nov_crc32 ty history r0)) \<and>
        dmi4 (body (sent c)) = dmi4 (fst (WsCallbacks nov_crc32 ty history r0))) \<and>
   (\<forall>c. length speeds = 2 \<and>
        last (snd (WsCallbacks nov_crc32 ty (history @ [speeds]) r0)) = Some c \<longrightarrow>
        dmi3 (body (sent c)) = dmi3 (fst (WsCallbacks nov_crc32 ty history r0)) \<and>
        dmi4 (body (sent c)) = dmi4 (fst (WsCallbacks nov_crc32 ty history r0))) \<and>
   (length speeds = 4 \<and> same_header r0 r0' \<longrightarrow>
      last (snd (WsCallbacks nov_crc32 ty (history @ [speeds]) r0)) =
      last (snd (WsCallbacks nov_crc32 ty (history' @ [speeds]) r0')))"
proof (intro conjI)
  show "\<forall>c. length speeds = 1 \<and>
        last (snd (WsCallbacks nov_crc32 ty (history @ [speeds]) r0)) = Some c \<longrightarrow>
        dmi2 (body (sent c)) = dmi2 (fst (WsCallbacks nov_crc32 ty history r0)) \<and>
        dmi3 (body (sent c)) = dmi3 (fst (WsCallbacks nov_crc32 ty history r0)) \<and>
        dmi4 (body (sent c)) = dmi4 (fst (WsCallbacks nov_crc32 ty history r0))"
    using last_sent_keeps(1) by blast
  show "\<forall>c. length speeds = 2 \<and>
        last (snd (WsCallbacks nov_crc32 ty (history @ [speeds]) r0)) = Some c \<longrightarrow>
        dmi3 (body (sent c)) = dmi3 (fst (WsCallbacks nov_crc32 ty history r0)) \<and>
        dmi4 (body (sent c)) = dmi4 (fst (WsCallbacks nov_crc32 ty history r0))"
    using last_sent_keeps(2) by blast
  show "length speeds = 4 \<and> same_header r0 r0' \<longrightarrow>
      last (snd (WsCallbacks nov_crc32 ty (history @ [speeds]) r0)) =
      last (snd (WsCallbacks nov_crc32 ty (history' @ [speeds]) r0'))"
    using last_sent_four by blast
qed

lemma history_1234:
  "fst (WsCallbacks nov_crc32 TCP [[1, 2, 3, 4]] rawdmi_init) =
     rawdmi_init\<lparr>dmi1 := 1, dmi2 := 2, dmi3 := 3, dmi4 := 4, mask := 15\<rparr>"
  by (simp add: WsCallback_def fill_rawdmi_def)

theorem WsCallback_reuses_struct_witness:
  "\<forall>nov_crc32.
     (\<exists>c. last (snd (WsCallbacks nov_crc32 TCP ([[1, 2, 3, 4]] @ [[5]]) rawdmi_init)) = Some c \<and>
          dmi2 (body (sent c)) = 2 \<and> dmi3 (body (sent c)) = 3 \<and> dmi4 (body (sent c)) = 4) \<and>
     last (snd (WsCallbacks nov_crc32 TCP ([[1, 2]] @ [[5, 6, 7, 8]]) rawdmi_init)) =
     last (snd (WsCallbacks nov_crc32 TCP ([] @ [[5, 6, 7, 8]]) rawdmi_init))"
proof (intro allI conjI)
  fix nov_crc32 :: "NovRawDmi \<Rightarrow> 32 word"
  let ?l = "last (snd (WsCallbacks nov_crc32 TCP ([[1, 2, 3, 4]] @ [[5]]) rawdmi_init))"
  have "?l \<noteq> None"
    unfolding last_WsCallbacks by (simp add: WsCallback_def fill_rawdmi_def)
  then obtain c where c: "?l = Some c" by blast
  have "length [5 :: 32 word] = 1" by simp
  with WsCallback_reuses_struct [of "[5]" nov_crc32 TCP "[[1, 2, 3, 4]]" rawdmi_init] c
  have "dmi2 (body (sent c)) = dmi2 (fst (WsCallbacks nov_crc32 TCP [[1, 2, 3, 4]] rawdmi_init)) \<and>
        dmi3 (body (sent c)) = dmi3 (fst (WsCallbacks nov_crc32 TCP [[1, 2, 3, 4]] rawdmi_init)) \<and>
        dmi4 (body (sent c)) = dmi4 (fst (WsCallbacks nov_crc32 TCP [[1, 2, 3, 4]] rawdmi_init))"
    by blast
  then have "dmi2 (body (sent c)) = 2 \<and> dmi3 (body (sent c)) = 3 \<and> dmi4 (body (sent c)) = 4"
    unfolding history_1234 by simp
  with c show "\<exists>c. ?l = Some c \<and>
          dmi2 (body (sent c)) = 2 \<and> dmi3 (body (sent c)) = 3 \<and> dmi4 (body (sent c)) = 4"
    by blast
  have "length [5, 6, 7, 8 :: 32 word] = 4 \<and> same_header rawdmi_init rawdmi_init"
    by (simp add: same_header_refl)
  with WsCallback_reuses_struct [of "[5, 6, 7, 8]" nov_crc32 TCP "[[1, 2]]" rawdmi_init
      rawdmi_init "[]"]
  show "last (snd (WsCallbacks nov_crc32 TCP ([[1, 2]] @ [[5, 6, 7, 8]]) rawdmi_init)) =
     last (snd (WsCallbacks nov_crc32 TCP ([] @ [[5, 6, 7, 8]]) rawdmi_init))"
    by blast
qed

text \<open>
  The claim as the spec has it fails: after a call with the readings 1, 2, 3, 4, a call
  with the one reading 5 writes a message other than the one a fresh driver writes for the
  same reading, whatever the checksum function is.
\<close>

theorem WsCallback_leaks_earlier_readings:
  "\<forall>nov_crc32.
     last (snd (WsCallbacks nov_crc32 TCP [[1, 2, 3, 4], [5]] rawdmi_init)) \<noteq>
     last (snd (WsCallbacks nov_crc32 TCP [[5]] rawdmi_init))"
  by (simp add: WsCallback_def fill_rawdmi_def rawdmi_init_def)

subsection \<open>The converter registry\<close>

lemma assign_new_lookup:
  "a_converters (assign_new key c g) k =
     (if k = key then Some (Some \<lparr>cls = c, obj = constructed g\<rparr>) else a_converters g k)"
  by (simp add: assign_new_def)

lemma assign_new_constructed: "constructed (assign_new key c g) = Suc (constructed g)"
  by (simp add: assign_new_def)

lemma registry_ok_init: "registry_ok registry_init"
  by (simp add: registry_ok_def registry_init_def)

lemma registry_ok_assign_new:
  assumes "registry_ok g" and "category_class key = Some c"
  shows "registry_ok (assign_new key c g)"
  unfolding registry_ok_def
proof (intro conjI allI impI)
  fix k p
  assume "a_converters (assign_new key c g) k = Some p"
  then show "\<exists>x. p = Some x \<and> category_class k = Some (cls x) \<and>
                obj x < constructed (assign_new key c g)"
    using assms
    by (auto simp: assign_new_lookup assign_new_constructed registry_ok_def less_Suc_eq
        split: if_splits)
next
  fix k k' x x'
  assume a: "a_converters (assign_new key c g) k = Some (Some x) \<and>
    a_converters (assign_new key c g) k' = Some (Some x') \<and> obj x = obj x'"
  have old: "obj y < constructed g" if "a_converters g j = Some (Some y)" for j y
    using assms(1) that unfolding registry_ok_def by fastforce
  have inj: "j = j'"
    if "a_converters g j = Some (Some y)" "a_converters g j' = Some (Some y')" "obj y = obj y'"
    for j j' y y'
    using assms(1) that unfolding registry_ok_def by blast
  from a show "k = k'"
    using old [of k x] old [of k' x'] inj [of k x k' x']
    by (auto simp: assign_new_lookup split: if_splits)
qed

lemma category_class_simps:
  "category_class ''ODOMETRY'' = Some OdometryConverter"
  "category_class ''TF'' = Some TfConverter"
  "category_class ''LLH'' = Some LlhConverter"
  "category_class ''RAWIMU'' = Some (ImuConverter False)"
  "category_class ''CORRIMU'' = Some (ImuConverter True)"
  by (simp_all add: category_class_def)

lemma register_format_simps:
  "register_format ''ODOMETRY'' g =
     assign_new ''TF'' TfConverter (assign_new ''ODOMETRY'' OdometryConverter g)"
  "register_format ''LLH'' g = assign_new ''LLH'' LlhConverter g"
  "register_format ''RAWIMU'' g = assign_new ''RAWIMU'' (ImuConverter False) g"
  "register_format ''CORRIMU'' g = assign_new ''CORRIMU'' (ImuConverter True) g"
  "register_format ''TF'' g =
     (if a_converters g ''TF'' = None then assign_new ''TF'' TfConverter g else g)"
  by (simp_all add: register_format_def)

lemma register_format_unknown:
  "category_class format = None \<Longrightarrow> register_format format g = g"
  by (simp add: register_format_def category_class_def split: if_splits)

lemma category_class_cases:
  obtains "format = ''ODOMETRY''" | "format = ''TF''" | "format = ''LLH''"
  | "format = ''RAWIMU''" | "format = ''CORRIMU''" | "category_class format = None"
  unfolding category_class_def by (cases "format = ''ODOMETRY''"; cases "format = ''TF''";
    cases "format = ''LLH''"; cases "format = ''RAWIMU''"; cases "format = ''CORRIMU''") simp_all

lemma registry_ok_register_format:
  assumes "registry_ok g"
  shows "registry_ok (register_format format g)"
proof (cases format rule: category_class_cases)
  case 1
  then show ?thesis
    using assms by (simp add: register_format_simps registry_ok_assign_new category_class_simps)
next
  case 2
  then show ?thesis
    using assms by (simp add: register_format_simps registry_ok_assign_new category_class_simps)
next
  case 3
  then show ?thesis
    using assms by (simp add: register_format_simps registry_ok_assign_new category_class_simps)
next
  case 4
  then show ?thesis
    using assms by (simp add: register_format_simps registry_ok_assign_new category_class_simps)
next
  case 5
  then show ?thesis
    using assms by (simp add: register_format_simps registry_ok_assign_new category_class_simps)
next
  case 6
  then show ?thesis
    using assms by (simp add: register_format_unknown)
qed

lemma registry_ok_register_formats:
  "registry_ok g \<Longrightarrow> registry_ok (register_formats formats g)"
  by (induction formats arbitrary: g) (simp_all add: registry_ok_register_format)

lemma register_format_dom:
  "a_converters (register_format format g) key \<noteq> None \<longleftrightarrow>
     a_converters g key \<noteq> None \<or> (key = format \<and> category_class key \<noteq> None) \<or>
     (key = ''TF'' \<and> format = ''ODOMETRY'')"
proof (cases format rule: category_class_cases)
  case 1
  then show ?thesis
    by (auto simp: register_format_simps assign_new_lookup category_class_simps)
next
  case 2
  then show ?thesis
    by (auto simp: register_format_simps assign_new_lookup category_class_simps)
next
  case 3
  then show ?thesis
    by (auto simp: register_format_simps assign_new_lookup category_class_simps)
next
  case 4
  then show ?thesis
    by (auto simp: register_format_simps assign_new_lookup category_class_simps)
next
  case 5
  then show ?thesis
    by (auto simp: register_format_simps assign_new_lookup category_class_simps)
next
  case 6
  then show ?thesis
    by (auto simp: register_format_unknown category_class_simps)
qed

lemma register_formats_dom:
  "a_converters (register_formats formats g) key \<noteq> None \<longleftrightarrow>
     a_converters g key \<noteq> None \<or> (key \<in> set formats \<and> category_class key \<noteq> None) \<or>
     (key = ''TF'' \<and> ''ODOMETRY'' \<in> set formats)"
proof (induction formats arbitrary: g)
  case Nil
  show ?case by simp
next
  case (Cons format formats)
  show ?case
    unfolding register_formats.simps Cons register_format_dom by auto
qed

lemma register_format_TF_present:
  "a_converters g ''TF'' \<noteq> None \<Longrightarrow> register_format ''TF'' g = g"
  by (auto simp: register_format_simps)

lemma register_format_replaces:
  assumes "format = ''ODOMETRY'' \<or> format = ''LLH'' \<or> format = ''RAWIMU'' \<or> format = ''CORRIMU''"
  shows "\<exists>c. category_class format = Some c \<and>
     a_converters (register_format format g) format = Some (Some \<lparr>cls = c, obj = constructed g\<rparr>)"
  using assms
  by (auto simp: register_format_simps assign_new_lookup assign_new_constructed category_class_simps)

lemma registry_ok_fresh:
  assumes "registry_ok g" and "a_converters g key = Some p"
  shows "p \<noteq> Some \<lparr>cls = c, obj = constructed g\<rparr>"
  using assms unfolding registry_ok_def by fastforce

text \<open>
  C6, as the code has it. \<open>InitializeConverters\<close> on a fresh driver ends with one
  converter of the right class under each name it registered and with no object under two
  names; the names registered are the known names of the list, and TF when ODOMETRY is in
  the list. A request of TF when TF is registered changes nothing. A request of ODOMETRY,
  LLH, RAWIMU or CORRIMU always puts a newly constructed object under that name, which is
  none of the objects the registry held before.
\<close>

theorem InitializeConverters_registry:
  "registry_ok (snd (InitializeConverters formats registry_init)) \<and>
   (\<forall>key. a_converters (snd (InitializeConverters formats registry_init)) key \<noteq> None \<longleftrightarrow>
      (key \<in> set formats \<and> category_class key \<noteq> None) \<or>
      (key = ''TF'' \<and> ''ODOMETRY'' \<in> set formats)) \<and>
   (a_converters g ''TF'' \<noteq> None \<longrightarrow> register_format ''TF'' g = g) \<and>
   (registry_ok g \<and>
    (format = ''ODOMETRY'' \<or> format = ''LLH'' \<or> format = ''RAWIMU'' \<or> format = ''CORRIMU'') \<longrightarrow>
      (\<exists>c. a_converters (register_format format g) format = Some (Some c) \<and>
           category_class format = Some (cls c) \<and>
           (\<forall>key. a_converters g key \<noteq> Some (Some c))))"
proof (intro conjI allI impI)
  show "registry_ok (snd (InitializeConverters formats registry_init))"
    by (simp add: InitializeConverters_def Let_def registry_ok_register_formats registry_ok_init)
next
  fix key
  show "a_converters (snd (InitializeConverters formats registry_init)) key \<noteq> None \<longleftrightarrow>
      (key \<in> set formats \<and> category_class key \<noteq> None) \<or>
      (key = ''TF'' \<and> ''ODOMETRY'' \<in> set formats)"
    unfolding InitializeConverters_def Let_def snd_conv register_formats_dom
    by (simp add: registry_init_def)
next
  assume "a_converters g ''TF'' \<noteq> None"
  then show "register_format ''TF'' g = g"
    by (rule register_format_TF_present)
next
  assume a: "registry_ok g \<and>
    (format = ''ODOMETRY'' \<or> format = ''LLH'' \<or> format = ''RAWIMU'' \<or> format = ''CORRIMU'')"
  then obtain c where c: "category_class format = Some c"
    "a_converters (register_format format g) format = Some (Some \<lparr>cls = c, obj = constructed g\<rparr>)"
    using register_format_replaces [of format g] by blast
  have "a_converters g key \<noteq> Some (Some \<lparr>cls = c, obj = constructed g\<rparr>)" for key
    using registry_ok_fresh [of g key] a by blast
  with c show "\<exists>c. a_converters (register_format format g) format = Some (Some c) \<and>
           category_class format = Some (cls c) \<and>
           (\<forall>key. a_converters g key \<noteq> Some (Some c))"
    by auto
qed

text \<open>
  The claim as the spec has it fails: a second request of ODOMETRY is no no-op. After one
  request the name holds the first object constructed, after two requests the third.
\<close>

theorem repeated_ODOMETRY_replaces_instance:
  "a_converters (snd (InitializeConverters [''ODOMETRY''] registry_init)) ''ODOMETRY'' =
     Some (Some \<lparr>cls = OdometryConverter, obj = 0\<rparr>) \<and>
   a_converters (snd (InitializeConverters [''ODOMETRY'', ''ODOMETRY''] registry_init)) ''ODOMETRY'' =
     Some (Some \<lparr>cls = OdometryConverter, obj = 2\<rparr>)"
  by (simp add: InitializeConverters_def Let_def register_format_simps assign_new_lookup
      assign_new_constructed registry_init_def)

theorem InitializeConverters_registry_witness:
  "registry_ok (snd (InitializeConverters [''ODOMETRY'', ''TF'', ''ODOMETRY'', ''FOO''] registry_init)) \<and>
   a_converters (snd (InitializeConverters [''ODOMETRY'', ''TF'', ''ODOMETRY'', ''FOO''] registry_init))
     ''TF'' \<noteq> None \<and>
   a_converters (snd (InitializeConverters [''ODOMETRY'', ''TF'', ''ODOMETRY'', ''FOO''] registry_init))
     ''FOO'' = None \<and>
   register_format ''TF'' (register_formats [''ODOMETRY''] registry_init) =
     register_formats [''ODOMETRY''] registry_init \<and>
   (\<exists>c. a_converters (register_format ''LLH'' (register_formats [''LLH''] registry_init)) ''LLH'' =
          Some (Some c) \<and>
        a_converters (register_formats [''LLH''] registry_init) ''LLH'' \<noteq> Some (Some c))"
proof (intro conjI)
  let ?fs = "[''ODOMETRY'', ''TF'', ''ODOMETRY'', ''FOO'']"
  let ?g = "snd (InitializeConverters ?fs registry_init)"
  note t = InitializeConverters_registry [of ?fs]
  from t show "registry_ok ?g" ..
  note d = t [THEN conjunct2, THEN conjunct1]
  from d [rule_format, of "''TF''"] show "a_converters ?g ''TF'' \<noteq> None"
    by simp
  from d [rule_format, of "''FOO''"] show "a_converters ?g ''FOO'' = None"
    by (simp add: category_class_def)
  let ?g1 = "register_formats [''ODOMETRY''] registry_init"
  have "a_converters ?g1 ''TF'' \<noteq> None"
    by (simp add: register_format_simps assign_new_lookup)
  moreover
  note InitializeConverters_registry [of "[]" ?g1, THEN conjunct2, THEN conjunct2, THEN conjunct1]
  ultimately show "register_format ''TF'' ?g1 = ?g1" by (rule rev_mp)
  let ?g2 = "register_formats [''LLH''] registry_init"
  have ok: "registry_ok ?g2"
    by (rule registry_ok_register_formats [OF registry_ok_init])
  note InitializeConverters_registry [of "[]" ?g2 "''LLH''", THEN conjunct2, THEN conjunct2,
      THEN conjunct2]
  with ok obtain c where "a_converters (register_format ''LLH'' ?g2) ''LLH'' = Some (Some c)"
    and "\<forall>key. a_converters ?g2 key \<noteq> Some (Some c)"
    by auto
  then show "\<exists>c. a_converters (register_format ''LLH'' ?g2) ''LLH'' = Some (Some c) \<and>
        a_converters ?g2 ''LLH'' \<noteq> Some (Some c)"
    by blast
qed

subsection \<open>Dispatch of an ascii frame\<close>

lemma subscript_cases:
  "subscript m key =
     (case m key of
        None \<Rightarrow> (None, m(key \<mapsto> None))
      | Some None \<Rightarrow> (None, m)
      | Some (Some c) \<Rightarrow> (Some c, m))"
  by (simp add: subscript_def split: option.splits)

lemma NmeaConvertAndPublish_throws:
  "sentence_tokens SplitMessage msg = Inl e \<Longrightarrow> NmeaConvertAndPublish SplitMessage msg m = Inl e"
  by (simp add: NmeaConvertAndPublish_def)

lemma NmeaConvertAndPublish_tokens:
  assumes "sentence_tokens SplitMessage msg = Inr tokens"
  shows "NmeaConvertAndPublish SplitMessage msg m =
     (if tokens = [] then Inl out_of_range
      else if tokens ! 0 \<noteq> ''FP'' then Inr ([], m)
      else if length tokens < 2 then Inl out_of_range
      else (case m (tokens ! 1) of
              None \<Rightarrow> Inr ([], m(tokens ! 1 \<mapsto> None))
            | Some None \<Rightarrow> Inr ([], m)
            | Some (Some c) \<Rightarrow> Inr ([ConvertTokens c tokens], m)))"
  using assms
  by (auto simp: NmeaConvertAndPublish_def at_def subscript_cases split: option.splits)

lemma tokens_FP_ODOMETRY:
  "sentence_tokens SplitMessage_spec ''$FP,ODOMETRY,1*00'' = Inr [''FP'', ''ODOMETRY'', ''1'']"
  by (simp add: sentence_tokens_def find_last_of_def substr_def)

lemma tokens_GP_LLH:
  "sentence_tokens SplitMessage_spec ''$GP,LLH,1*00'' = Inr [''GP'', ''LLH'', ''1'']"
  by (simp add: sentence_tokens_def find_last_of_def substr_def)

lemma tokens_FP:
  "sentence_tokens SplitMessage_spec ''$FP*XX'' = Inr [''FP'']"
  by (simp add: sentence_tokens_def find_last_of_def substr_def)

lemma tokens_GP:
  "sentence_tokens SplitMessage_spec ''$GP*XX'' = Inr [''GP'']"
  by (simp add: sentence_tokens_def find_last_of_def substr_def)

lemma LLH_registry:
  "a_converters (snd (InitializeConverters [''LLH''] registry_init)) =
     [''LLH'' \<mapsto> Some \<lparr>cls = LlhConverter, obj = 0\<rparr>]"
  by (simp add: InitializeConverters_def Let_def register_format_simps assign_new_def
      registry_init_def)

text \<open>
  C7, as the code has it. Dispatching an ascii frame of at least two tokens for which no
  converter is registered calls no converter and throws nothing. When the first token is
  not FP the map is left as it is. When the first token is FP and the second token has no
  converter, the lookup leaves a null pointer under the second token (it adds the entry
  when the key was absent) and every other entry as it was.
\<close>

theorem NmeaConvertAndPublish_miss:
  assumes "sentence_tokens SplitMessage msg = Inr tokens" and "2 \<le> length tokens"
  shows "(tokens ! 0 \<noteq> ''FP'' \<longrightarrow> NmeaConvertAndPublish SplitMessage msg m = Inr ([], m)) \<and>
         (tokens ! 0 = ''FP'' \<and> (m (tokens ! 1) = None \<or> m (tokens ! 1) = Some None) \<longrightarrow>
            (\<exists>m'. NmeaConvertAndPublish SplitMessage msg m = Inr ([], m') \<and>
                  m' (tokens ! 1) = Some None \<and>
                  (\<forall>key. key \<noteq> tokens ! 1 \<longrightarrow> m' key = m key)))"
proof (intro conjI impI)
  assume "tokens ! 0 \<noteq> ''FP''"
  with assms show "NmeaConvertAndPublish SplitMessage msg m = Inr ([], m)"
    by (auto simp: NmeaConvertAndPublish_tokens)
next
  assume a: "tokens ! 0 = ''FP'' \<and> (m (tokens ! 1) = None \<or> m (tokens ! 1) = Some None)"
  from assms(2) have ne: "tokens \<noteq> []" "\<not> length tokens < 2" by auto
  from a have "m (tokens ! 1) = None \<or> m (tokens ! 1) = Some None" ..
  then show "\<exists>m'. NmeaConvertAndPublish SplitMessage msg m = Inr ([], m') \<and>
                  m' (tokens ! 1) = Some None \<and>
                  (\<forall>key. key \<noteq> tokens ! 1 \<longrightarrow> m' key = m key)"
  proof
    assume "m (tokens ! 1) = None"
    with a ne have "NmeaConvertAndPublish SplitMessage msg m = Inr ([], m(tokens ! 1 \<mapsto> None))"
      by (simp add: NmeaConvertAndPublish_tokens [OF assms(1)])
    then show ?thesis by simp
  next
    assume s: "m (tokens ! 1) = Some None"
    with a ne have "NmeaConvertAndPublish SplitMessage msg m = Inr ([], m)"
      by (simp add: NmeaConvertAndPublish_tokens [OF assms(1)])
    with s show ?thesis by simp
  qed
qed

theorem NmeaConvertAndPublish_miss_witness:
  "\<exists>m'. NmeaConvertAndPublish SplitMessage_spec ''$FP,ODOMETRY,1*00''
           (a_converters (snd (InitializeConverters [''LLH''] registry_init))) = Inr ([], m') \<and>
        m' ''ODOMETRY'' = Some None \<and>
        m' ''LLH'' = Some (Some \<lparr>cls = LlhConverter, obj = 0\<rparr>)"
proof -
  let ?m = "a_converters (snd (InitializeConverters [''LLH''] registry_init))"
  have l: "2 \<le> length [''FP'', ''ODOMETRY'', ''1'']" by simp
  have "[''FP'', ''ODOMETRY'', ''1''] ! 0 = ''FP'' \<and>
    (?m ([''FP'', ''ODOMETRY'', ''1''] ! 1) = None \<or> ?m ([''FP'', ''ODOMETRY'', ''1''] ! 1) = Some None)"
    by (simp add: LLH_registry)
  with NmeaConvertAndPublish_miss [OF tokens_FP_ODOMETRY l, of ?m]
  obtain m' where m': "NmeaConvertAndPublish SplitMessage_spec ''$FP,ODOMETRY,1*00'' ?m = Inr ([], m')"
    "m' ([''FP'', ''ODOMETRY'', ''1''] ! 1) = Some None"
    "\<forall>key. key \<noteq> [''FP'', ''ODOMETRY'', ''1''] ! 1 \<longrightarrow> m' key = ?m key"
    by blast
  from m'(3) have "m' ''LLH'' = ?m ''LLH''" by simp
  with m'(1,2) show ?thesis by (simp add: LLH_registry)
qed

text \<open>
  The claim as the spec has it fails: in a registry built for LLH alone, the dispatch of
  a frame FP,ODOMETRY calls nothing and leaves a null entry under ODOMETRY, a key the
  registry did not have.
\<close>

theorem lookup_miss_adds_entry:
  "a_converters (snd (InitializeConverters [''LLH''] registry_init)) ''ODOMETRY'' = None \<and>
   (case NmeaConvertAndPublish SplitMessage_spec ''$FP,ODOMETRY,1*00''
           (a_converters (snd (InitializeConverters [''LLH''] registry_init))) of
      Inl e \<Rightarrow> False
    | Inr (calls, m') \<Rightarrow> calls = [] \<and> m' ''ODOMETRY'' = Some None)"
  by (simp add: NmeaConvertAndPublish_tokens [OF tokens_FP_ODOMETRY] LLH_registry)

text \<open>
  C8, as the code has it. For an ascii frame of at least two tokens whose first token is
  FP the registry is looked up under the second token: the frame goes to the converter
  found there, and is dropped when there is none. A frame whose first token is not FP is
  dropped before any lookup, whatever is registered under its second token.
\<close>

theorem NmeaConvertAndPublish_lookup:
  assumes "sentence_tokens SplitMessage msg = Inr tokens" and "2 \<le> length tokens"
  shows "(tokens ! 0 = ''FP'' \<longrightarrow>
            (\<forall>c. m (tokens ! 1) = Some (Some c) \<longrightarrow>
               NmeaConvertAndPublish SplitMessage msg m = Inr ([ConvertTokens c tokens], m)) \<and>
            ((\<forall>c. m (tokens ! 1) \<noteq> Some (Some c)) \<longrightarrow>
               (\<exists>m'. NmeaConvertAndPublish SplitMessage msg m = Inr ([], m')))) \<and>
         (tokens ! 0 \<noteq> ''FP'' \<longrightarrow> NmeaConvertAndPublish SplitMessage msg m = Inr ([], m))"
proof -
  from assms(2) have ne: "tokens \<noteq> []" "\<not> length tokens < 2" by auto
  show ?thesis
    unfolding NmeaConvertAndPublish_tokens [OF assms(1)]
    using ne by (auto split: option.splits)
qed

theorem NmeaConvertAndPublish_lookup_witness:
  "NmeaConvertAndPublish SplitMessage_spec ''$FP,LLH,1*00''
     (a_converters (snd (InitializeConverters [''LLH''] registry_init))) =
   Inr ([ConvertTokens \<lparr>cls = LlhConverter, obj = 0\<rparr> [''FP'', ''LLH'', ''1'']],
        a_converters (snd (InitializeConverters [''LLH''] registry_init)))"
proof -
  let ?m = "a_converters (snd (InitializeConverters [''LLH''] registry_init))"
  have t: "sentence_tokens SplitMessage_spec ''$FP,LLH,1*00'' = Inr [''FP'', ''LLH'', ''1'']"
    by (simp add: sentence_tokens_def find_last_of_def substr_def)
  have l: "2 \<le> length [''FP'', ''LLH'', ''1'']" by simp
  have "[''FP'', ''LLH'', ''1''] ! 0 = ''FP''"
    and "?m ([''FP'', ''LLH'', ''1''] ! 1) = Some (Some \<lparr>cls = LlhConverter, obj = 0\<rparr>)"
    by (simp_all add: LLH_registry)
  with NmeaConvertAndPublish_lookup [OF t l, of ?m] show ?thesis
    by blast
qed

text \<open>
  The claim as the spec has it fails: a frame GP,LLH is dropped, and the registry left as
  it is, although LLH has a converter.
\<close>

theorem non_FP_rejected_before_lookup:
  "a_converters (snd (InitializeConverters [''LLH''] registry_init)) ''LLH'' =
     Some (Some \<lparr>cls = LlhConverter, obj = 0\<rparr>) \<and>
   sentence_tokens SplitMessage_spec ''$GP,LLH,1*00'' = Inr [''GP'', ''LLH'', ''1''] \<and>
   NmeaConvertAndPublish SplitMessage_spec ''$GP,LLH,1*00''
     (a_converters (snd (InitializeConverters [''LLH''] registry_init))) =
   Inr ([], a_converters (snd (InitializeConverters [''LLH''] registry_init)))"
  by (simp add: NmeaConvertAndPublish_tokens [OF tokens_GP_LLH] tokens_GP_LLH LLH_registry)

text \<open>
  C10, as the code has it. \<open>NmeaConvertAndPublish\<close> reads the first token always and the
  second only when the first is FP. It throws \<open>out_of_range\<close> exactly when the message is
  empty, when there is no token, or when FP is the only token; a message whose only token
  is not FP is dropped without an exception.
\<close>

theorem NmeaConvertAndPublish_out_of_range:
  "NmeaConvertAndPublish SplitMessage msg m = Inl out_of_range \<longleftrightarrow>
     (case sentence_tokens SplitMessage msg of
        Inl e \<Rightarrow> True
      | Inr tokens \<Rightarrow> tokens = [] \<or> (tokens ! 0 = ''FP'' \<and> length tokens < 2))"
proof (cases "sentence_tokens SplitMessage msg")
  case (Inl e)
  then show ?thesis
    by (cases e) (simp add: NmeaConvertAndPublish_throws)
next
  case (Inr tokens)
  then show ?thesis
    by (simp add: NmeaConvertAndPublish_tokens split: option.splits)
qed

theorem NmeaConvertAndPublish_out_of_range_witness:
  "NmeaConvertAndPublish SplitMessage_spec ''$FP*XX'' Map.empty = Inl out_of_range"
  using NmeaConvertAndPublish_out_of_range [of SplitMessage_spec "''$FP*XX''" Map.empty]
  by (simp add: tokens_FP)

text \<open>
  The claim as stated fails: a message whose only token is GP has fewer than two tokens
  and is dispatched without an exception.
\<close>

theorem single_token_not_FP_is_safe:
  "sentence_tokens SplitMessage_spec ''$GP*XX'' = Inr [''GP''] \<and>
   NmeaConvertAndPublish SplitMessage_spec ''$GP*XX'' Map.empty = Inr ([], Map.empty)"
  by (simp add: NmeaConvertAndPublish_tokens [OF tokens_GP] tokens_GP)

subsection \<open>The read cycle\<close>

lemma ReadAndPublish_data:
  assumes "ty \<noteq> UNKNOWN" and "0 < ret io"
  shows "ReadAndPublish nov nmea S ty io m =
     (case scan nov nmea S (take (nat (ret io)) (readBuf io)) 0 m of
        (evs, None, m') \<Rightarrow> (evs, Inr True, m')
      | (evs, Some e, m') \<Rightarrow> (evs, Inl e, m'))"
  using assms by (cases ty) (simp_all add: ReadAndPublish_def)

lemma ReadAndPublish_data_not_False:
  assumes "ty \<noteq> UNKNOWN" and "0 < ret io"
  shows "fst (snd (ReadAndPublish nov nmea S ty io m)) \<noteq> Inr False"
  unfolding ReadAndPublish_data [OF assms]
  by (simp split: prod.splits option.splits)

lemma ReadAndPublish_by_ret:
  assumes "ty \<noteq> UNKNOWN"
  shows "ret io < 0 \<and> errno_EAGAIN io \<Longrightarrow> ReadAndPublish nov nmea S ty io m = ([], Inr True, m)"
    and "ret io = 0 \<or> (ret io < 0 \<and> \<not> errno_EAGAIN io) \<Longrightarrow>
           ReadAndPublish nov nmea S ty io m = ([], Inr False, m)"
    and "0 < ret io \<Longrightarrow> fst (snd (ReadAndPublish nov nmea S ty io m)) \<noteq> Inr False"
proof -
  show "ret io < 0 \<and> errno_EAGAIN io \<Longrightarrow> ReadAndPublish nov nmea S ty io m = ([], Inr True, m)"
    using assms by (cases ty) (simp_all add: ReadAndPublish_def)
  show "ret io = 0 \<or> (ret io < 0 \<and> \<not> errno_EAGAIN io) \<Longrightarrow>
           ReadAndPublish nov nmea S ty io m = ([], Inr False, m)"
    using assms by (cases ty) (auto simp: ReadAndPublish_def)
  show "0 < ret io \<Longrightarrow> fst (snd (ReadAndPublish nov nmea S ty io m)) \<noteq> Inr False"
    by (rule ReadAndPublish_data_not_False [OF assms])
qed

lemma ReadAndPublish_False_iff:
  assumes "ty \<noteq> UNKNOWN"
  shows "fst (snd (ReadAndPublish nov nmea S ty io m)) = Inr False \<longleftrightarrow>
     ret io = 0 \<or> (ret io < 0 \<and> \<not> errno_EAGAIN io)"
proof -
  consider "ret io = 0 \<or> (ret io < 0 \<and> \<not> errno_EAGAIN io)" | "ret io < 0 \<and> errno_EAGAIN io"
    | "0 < ret io"
    by linarith
  then show ?thesis
  proof cases
    case 1
    with ReadAndPublish_by_ret(2) [OF assms this, of nov nmea S m] show ?thesis by simp
  next
    case 2
    with ReadAndPublish_by_ret(1) [OF assms this, of nov nmea S m] show ?thesis by simp
  next
    case 3
    with ReadAndPublish_by_ret(3) [OF assms this, of nov nmea S m] show ?thesis by simp
  qed
qed

text \<open>
  C9, as the code has it. \<open>ReadAndPublish\<close> tells "no data for now" from a closed stream
  by the return value and \<open>errno\<close>: on TCP and on serial it returns true with nothing done
  when the read returned a negative value with \<open>errno\<close> at \<open>EAGAIN\<close>, and it returns false
  exactly when the read returned 0 or a negative value with another \<open>errno\<close>. The read of
  the TCP socket is non-blocking, so that on TCP no data for now gives true, and false is
  returned exactly for a closed stream and for an error. The read of the serial port
  waits up to five seconds and returns 0 when no byte came, so that on serial no data
  gives false, as a closed stream and an error do. A read that brought bytes never gives
  false.
\<close>

theorem ReadAndPublish_return:
  "(ty \<noteq> UNKNOWN \<and> ret io < 0 \<and> errno_EAGAIN io \<longrightarrow>
      ReadAndPublish nov nmea S ty io m = ([], Inr True, m)) \<and>
   (ty \<noteq> UNKNOWN \<longrightarrow>
      (fst (snd (ReadAndPublish nov nmea S ty io m)) = Inr False \<longleftrightarrow>
         ret io = 0 \<or> (ret io < 0 \<and> \<not> errno_EAGAIN io))) \<and>
   (ty = UNKNOWN \<longrightarrow> ReadAndPublish nov nmea S ty io m = ([], Inr False, m)) \<and>
   ReadAndPublish nov nmea S TCP (tcp_recv No_data) m = ([], Inr True, m) \<and>
   (fst (snd (ReadAndPublish nov nmea S TCP (tcp_recv ev) m)) = Inr False \<longleftrightarrow>
      ev = Peer_closed \<or> ev = Io_error \<or> ev = Bytes []) \<and>
   ReadAndPublish nov nmea S SERIAL (serial_read No_data) m = ([], Inr False, m) \<and>
   (fst (snd (ReadAndPublish nov nmea S SERIAL (serial_read ev) m)) = Inr False \<longleftrightarrow>
      ev = No_data \<or> ev = Peer_closed \<or> ev = Io_error \<or> ev = Bytes [])"
proof (intro conjI impI)
  assume "ty \<noteq> UNKNOWN \<and> ret io < 0 \<and> errno_EAGAIN io"
  then show "ReadAndPublish nov nmea S ty io m = ([], Inr True, m)"
    using ReadAndPublish_by_ret(1) [of ty io nov nmea S m] by blast
next
  assume "ty \<noteq> UNKNOWN"
  then show "fst (snd (ReadAndPublish nov nmea S ty io m)) = Inr False \<longleftrightarrow>
         ret io = 0 \<or> (ret io < 0 \<and> \<not> errno_EAGAIN io)"
    by (rule ReadAndPublish_False_iff)
next
  assume "ty = UNKNOWN"
  then show "ReadAndPublish nov nmea S ty io m = ([], Inr False, m)"
    by (simp add: ReadAndPublish_def)
next
  show "ReadAndPublish nov nmea S TCP (tcp_recv No_data) m = ([], Inr True, m)"
    by (simp add: ReadAndPublish_by_ret(1))
next
  have ty: "TCP \<noteq> UNKNOWN" by simp
  show "fst (snd (ReadAndPublish nov nmea S TCP (tcp_recv ev) m)) = Inr False \<longleftrightarrow>
      ev = Peer_closed \<or> ev = Io_error \<or> ev = Bytes []"
    unfolding ReadAndPublish_False_iff [OF ty] by (cases ev) simp_all
next
  show "ReadAndPublish nov nmea S SERIAL (serial_read No_data) m = ([], Inr False, m)"
    by (simp add: ReadAndPublish_by_ret(2))
next
  have ty: "SERIAL \<noteq> UNKNOWN" by simp
  show "fst (snd (ReadAndPublish nov nmea S SERIAL (serial_read ev) m)) = Inr False \<longleftrightarrow>
      ev = No_data \<or> ev = Peer_closed \<or> ev = Io_error \<or> ev = Bytes []"
    unfolding ReadAndPublish_False_iff [OF ty] by (cases ev) simp_all
qed

theorem ReadAndPublish_return_witness:
  "\<forall>nov nmea S m.
     ReadAndPublish nov nmea S TCP \<lparr>ret = - 1, errno_EAGAIN = True, readBuf = []\<rparr> m =
       ([], Inr True, m) \<and>
     fst (snd (ReadAndPublish nov nmea S SERIAL \<lparr>ret = 0, errno_EAGAIN = False, readBuf = []\<rparr> m)) =
       Inr False \<and>
     fst (snd (ReadAndPublish nov nmea S TCP \<lparr>ret = - 1, errno_EAGAIN = False, readBuf = []\<rparr> m)) =
       Inr False \<and>
     fst (snd (ReadAndPublish nov nmea S TCP \<lparr>ret = 3, errno_EAGAIN = False, readBuf = ''abc''\<rparr> m)) \<noteq>
       Inr False \<and>
     fst (snd (ReadAndPublish nov nmea S TCP (tcp_recv (Bytes ''abc'')) m)) \<noteq> Inr False \<and>
     fst (snd (ReadAndPublish nov nmea S SERIAL (serial_read (Bytes ''abc'')) m)) \<noteq> Inr False \<and>
     fst (snd (ReadAndPublish nov nmea S TCP (tcp_recv Peer_closed) m)) = Inr False"
proof (intro allI conjI)
  fix nov nmea :: "string \<Rightarrow> int" and S :: "string \<Rightarrow> string \<Rightarrow> string list" and m :: converters
  show "ReadAndPublish nov nmea S TCP \<lparr>ret = - 1, errno_EAGAIN = True, readBuf = []\<rparr> m =
       ([], Inr True, m)"
    using ReadAndPublish_return [of TCP "\<lparr>ret = - 1, errno_EAGAIN = True, readBuf = []\<rparr>" nov nmea S m]
    by simp
  show "fst (snd (ReadAndPublish nov nmea S SERIAL \<lparr>ret = 0, errno_EAGAIN = False, readBuf = []\<rparr> m)) =
       Inr False"
    using ReadAndPublish_return [of SERIAL "\<lparr>ret = 0, errno_EAGAIN = False, readBuf = []\<rparr>" nov nmea S m]
    by simp
  show "fst (snd (ReadAndPublish nov nmea S TCP \<lparr>ret = - 1, errno_EAGAIN = False, readBuf = []\<rparr> m)) =
       Inr False"
    using ReadAndPublish_return [of TCP "\<lparr>ret = - 1, errno_EAGAIN = False, readBuf = []\<rparr>" nov nmea S m]
    by simp
  show "fst (snd (ReadAndPublish nov nmea S TCP \<lparr>ret = 3, errno_EAGAIN = False, readBuf = ''abc''\<rparr> m)) \<noteq>
       Inr False"
    using ReadAndPublish_return [of TCP "\<lparr>ret = 3, errno_EAGAIN = False, readBuf = ''abc''\<rparr>" nov nmea S m]
    by simp
  note t = ReadAndPublish_return [where ty = TCP and nov = nov and nmea = nmea and S = S and m = m]
  show "fst (snd (ReadAndPublish nov nmea S TCP (tcp_recv (Bytes ''abc'')) m)) \<noteq> Inr False"
    using t [where ev = "Bytes ''abc''"] by simp
  show "fst (snd (ReadAndPublish nov nmea S SERIAL (serial_read (Bytes ''abc'')) m)) \<noteq> Inr False"
    using t [where ev = "Bytes ''abc''"] by simp
  show "fst (snd (ReadAndPublish nov nmea S TCP (tcp_recv Peer_closed) m)) = Inr False"
    using t [where ev = Peer_closed] by simp
qed

text \<open>
  The claim as the spec has it fails on serial: a read of the serial port with no data
  returns 0 after its timer, and \<open>ReadAndPublish\<close> returns false for it, as for a closed
  connection.
\<close>

theorem serial_no_data_is_treated_as_closed:
  "\<forall>crc32.
     ret (serial_read No_data) = 0 \<and>
     ReadAndPublish (IsNovMessage_spec crc32) IsNmeaMessage_spec SplitMessage_spec SERIAL
       (serial_read No_data) Map.empty = ([], Inr False, Map.empty)"
  by (simp add: ReadAndPublish_def)

subsection \<open>The scanning loop\<close>

lemma fst_emit [simp]: "fst (emit es r) = es @ fst r"
  by (cases r) simp

lemma snd_emit [simp]: "snd (emit es r) = snd r"
  by (cases r) simp

lemma emit_emit: "emit es (emit es' r) = emit (es @ es') r"
  by (cases r) simp

lemma emit_Nil [simp]: "emit [] r = r"
  by (cases r) simp

lemma scan_end:
  "\<not> start_id < length buf \<Longrightarrow> scan nov nmea S buf start_id m = ([], None, m)"
  by (simp add: scan.simps)

lemma scan_nov_frame:
  assumes "start_id < length buf" and "0 < nov (drop start_id buf)"
  shows "scan nov nmea S buf start_id m =
     emit [Nov_tried start_id (nov (drop start_id buf)),
           Nov_frame (take (nat (nov (drop start_id buf))) (drop start_id buf))]
       (scan nov nmea S buf (start_id + nat (nov (drop start_id buf))) m)"
  using assms by (subst scan.simps) (simp add: Let_def)

lemma scan_nov_incomplete:
  assumes "start_id < length buf" and "nov (drop start_id buf) < 0"
  shows "scan nov nmea S buf start_id m = ([Nov_tried start_id (nov (drop start_id buf))], None, m)"
  using assms by (subst scan.simps) (simp add: Let_def)

lemma scan_nmea_frame:
  assumes "start_id < length buf" and "nov (drop start_id buf) = 0"
    and "0 < nmea (drop start_id buf)"
  shows "scan nov nmea S buf start_id m =
     (case NmeaConvertAndPublish S (take (nat (nmea (drop start_id buf))) (drop start_id buf)) m of
        Inl e \<Rightarrow>
          ([Nov_tried start_id 0, Nmea_tried start_id (nmea (drop start_id buf)),
            Nmea_frame (take (nat (nmea (drop start_id buf))) (drop start_id buf))], Some e, m)
      | Inr (calls, m') \<Rightarrow>
          emit ([Nov_tried start_id 0, Nmea_tried start_id (nmea (drop start_id buf)),
                 Nmea_frame (take (nat (nmea (drop start_id buf))) (drop start_id buf))] @ calls)
            (scan nov nmea S buf (start_id + nat (nmea (drop start_id buf))) m'))"
  using assms by (subst scan.simps) (simp add: Let_def)

lemma scan_nmea_incomplete:
  assumes "start_id < length buf" and "nov (drop start_id buf) = 0"
    and "nmea (drop start_id buf) < 0"
  shows "scan nov nmea S buf start_id m =
     ([Nov_tried start_id 0, Nmea_tried start_id (nmea (drop start_id buf))], None, m)"
  using assms by (subst scan.simps) (simp add: Let_def)

lemma scan_no_match:
  assumes "start_id < length buf" and "nov (drop start_id buf) = 0"
    and "nmea (drop start_id buf) = 0"
  shows "scan nov nmea S buf start_id m =
     emit [Nov_tried start_id 0, Nmea_tried start_id 0, Advance start_id]
       (scan nov nmea S buf (start_id + 1) m)"
  using assms by (subst scan.simps) (simp add: Let_def)

lemma NmeaConvertAndPublish_calls:
  assumes "NmeaConvertAndPublish S msg m = Inr (calls, m')"
  shows "calls = [] \<or> (\<exists>c tokens. calls = [ConvertTokens c tokens])"
  using assms
  by (auto simp: NmeaConvertAndPublish_def subscript_cases
      split: sum.splits if_splits option.splits)

lemma in_order_simps [simp]:
  "in_order (Nov_tried i k) (Nov_frame f) \<longleftrightarrow> 0 \<le> k"
  "in_order (Nov_tried i k) (Nmea_tried j l) \<longleftrightarrow> i = j \<and> k = 0"
  "in_order (Nov_tried i k) (Advance j) \<longleftrightarrow> 0 \<le> k"
  "in_order (Nmea_tried i k) (Nmea_frame f)"
  "in_order (Nmea_tried i k) (Advance j)"
  "in_order (Nmea_frame f) (ConvertTokens c ts)"
  "in_order (Nov_frame f) (Nov_tried i k)"
  "in_order (Nmea_frame f) (Nov_tried i k)"
  "in_order (ConvertTokens c ts) (Nov_tried i k)"
  "in_order (Advance j) (Nov_tried i k)"
  by (auto simp: in_order_def)

lemma scan_in_order:
  "successively in_order (fst (scan nov nmea S buf start_id m)) \<and>
   (fst (scan nov nmea S buf start_id m) \<noteq> [] \<longrightarrow>
      (\<exists>k. hd (fst (scan nov nmea S buf start_id m)) = Nov_tried start_id k))"
proof (induction nov nmea S buf start_id m rule: scan.induct)
  case (1 nov nmea S buf start_id m)
  let ?rest = "drop start_id buf"
  show ?case
  proof (cases "start_id < length buf")
    case False
    then show ?thesis by (simp add: scan_end)
  next
    case in_buf: True
    consider (frame) "0 < nov ?rest" | (incomplete) "nov ?rest < 0" | (none) "nov ?rest = 0"
      by linarith
    then show ?thesis
    proof cases
      case frame
      from "1.IH"(1) [OF in_buf refl frame] frame show ?thesis
        unfolding scan_nov_frame [where nov = nov and nmea = nmea and buf = buf and start_id = start_id, OF in_buf frame]
        by (auto simp: successively_append_iff successively_Cons)
    next
      case incomplete
      then show ?thesis
        by (simp add: scan_nov_incomplete [where nov = nov and nmea = nmea and buf = buf and start_id = start_id, OF in_buf])
    next
      case none
      consider (frame2) "0 < nmea ?rest" | (incomplete2) "nmea ?rest < 0" | (none2) "nmea ?rest = 0"
        by linarith
      then show ?thesis
      proof cases
        case frame2
        let ?msg = "take (nat (nmea ?rest)) ?rest"
        show ?thesis
        proof (cases "NmeaConvertAndPublish S ?msg m")
          case (Inl e)
          then show ?thesis
            unfolding scan_nmea_frame [where nov = nov and nmea = nmea and buf = buf and start_id = start_id, OF in_buf none frame2] by simp
        next
          case (Inr r)
          obtain calls m' where r: "r = (calls, m')" by (cases r)
          from none have n: "\<not> 0 < nov ?rest" "\<not> nov ?rest < 0" by simp_all
          note ih = "1.IH"(2) [OF in_buf refl n refl frame2 refl Inr r [symmetric]]
          from NmeaConvertAndPublish_calls [OF Inr [unfolded r]] ih show ?thesis
            unfolding scan_nmea_frame [where nov = nov and nmea = nmea and buf = buf and start_id = start_id, OF in_buf none frame2] Inr r
            by (auto simp: successively_append_iff successively_Cons)
        qed
      next
        case incomplete2
        then show ?thesis
          by (simp add: scan_nmea_incomplete [where nov = nov and nmea = nmea and buf = buf and start_id = start_id, OF in_buf none])
      next
        case none2
        from none none2 have n: "\<not> 0 < nov ?rest" "\<not> nov ?rest < 0"
          "\<not> 0 < nmea ?rest" "\<not> nmea ?rest < 0" by simp_all
        from "1.IH"(3) [OF in_buf refl n(1,2) refl n(3,4)] show ?thesis
          unfolding scan_no_match [where nov = nov and nmea = nmea and buf = buf and start_id = start_id, OF in_buf none none2]
          by (auto simp: successively_append_iff successively_Cons)
      qed
    qed
  qed
qed

lemma scan_Nov_tried:
  "Nov_tried i k \<in> set (fst (scan nov nmea S buf start_id m)) \<Longrightarrow>
     start_id \<le> i \<and> i < length buf \<and> k = nov (drop i buf)"
proof (induction nov nmea S buf start_id m rule: scan.induct)
  case (1 nov nmea S buf start_id m)
  let ?rest = "drop start_id buf"
  note mem = "1.prems"
  show ?case
  proof (cases "start_id < length buf")
    case False
    with mem show ?thesis by (simp add: scan_end)
  next
    case in_buf: True
    consider (frame) "0 < nov ?rest" | (incomplete) "nov ?rest < 0" | (none) "nov ?rest = 0"
      by linarith
    then show ?thesis
    proof cases
      case frame
      from mem have "Nov_tried i k = Nov_tried start_id (nov ?rest) \<or>
          Nov_tried i k \<in> set (fst (scan nov nmea S buf (start_id + nat (nov ?rest)) m))"
        unfolding scan_nov_frame [where nov = nov and nmea = nmea and buf = buf and start_id = start_id, OF in_buf frame]
        by simp
      then show ?thesis
      proof
        assume "Nov_tried i k = Nov_tried start_id (nov ?rest)"
        with in_buf show ?thesis by simp
      next
        assume "Nov_tried i k \<in> set (fst (scan nov nmea S buf (start_id + nat (nov ?rest)) m))"
        from "1.IH"(1) [OF in_buf refl frame this] show ?thesis by simp
      qed
    next
      case incomplete
      with in_buf mem show ?thesis
        by (simp add: scan_nov_incomplete [where nov = nov and nmea = nmea and buf = buf and start_id = start_id, OF in_buf])
    next
      case none
      consider (frame2) "0 < nmea ?rest" | (incomplete2) "nmea ?rest < 0" | (none2) "nmea ?rest = 0"
        by linarith
      then show ?thesis
      proof cases
        case frame2
        let ?msg = "take (nat (nmea ?rest)) ?rest"
        show ?thesis
        proof (cases "NmeaConvertAndPublish S ?msg m")
          case (Inl e)
          with in_buf none mem show ?thesis
            unfolding scan_nmea_frame [where nov = nov and nmea = nmea and buf = buf and start_id = start_id, OF in_buf none frame2] by simp
        next
          case (Inr r)
          obtain calls m' where r: "r = (calls, m')" by (cases r)
          from none have n: "\<not> 0 < nov ?rest" "\<not> nov ?rest < 0" by simp_all
          note ih = "1.IH"(2) [OF in_buf refl n refl frame2 refl Inr r [symmetric]]
          from NmeaConvertAndPublish_calls [OF Inr [unfolded r]]
          have c: "Nov_tried i k \<notin> set calls" by auto
          from mem c have "Nov_tried i k = Nov_tried start_id 0 \<or> Nov_tried i k = Nmea_tried start_id (nmea ?rest) \<or>
            Nov_tried i k \<in> set (fst (scan nov nmea S buf (start_id + nat (nmea ?rest)) m'))"
            unfolding scan_nmea_frame [where nov = nov and nmea = nmea and buf = buf and start_id = start_id, OF in_buf none frame2] Inr r
            by simp
          then show ?thesis
          proof (elim disjE)
            assume "Nov_tried i k \<in> set (fst (scan nov nmea S buf (start_id + nat (nmea ?rest)) m'))"
            from ih [OF this] show ?thesis by simp
          qed (use in_buf none in simp_all)
        qed
      next
        case incomplete2
        with in_buf none mem show ?thesis
          by (simp add: scan_nmea_incomplete [where nov = nov and nmea = nmea and buf = buf and start_id = start_id, OF in_buf none])
      next
        case none2
        from none none2 have n: "\<not> 0 < nov ?rest" "\<not> nov ?rest < 0"
          "\<not> 0 < nmea ?rest" "\<not> nmea ?rest < 0" by simp_all
        from mem have "Nov_tried i k = Nov_tried start_id 0 \<or> Nov_tried i k = Nmea_tried start_id 0 \<or>
            Nov_tried i k \<in> set (fst (scan nov nmea S buf (start_id + 1) m))"
          unfolding scan_no_match [where nov = nov and nmea = nmea and buf = buf and start_id = start_id, OF in_buf none none2]
          by simp
        then show ?thesis
        proof (elim disjE)
          assume "Nov_tried i k \<in> set (fst (scan nov nmea S buf (start_id + 1) m))"
          from "1.IH"(3) [OF in_buf refl n(1,2) refl n(3,4) this] show ?thesis by simp
        qed (use in_buf none none2 in simp_all)
      qed
    qed
  qed
qed

lemma scan_Nmea_tried:
  "Nmea_tried i k \<in> set (fst (scan nov nmea S buf start_id m)) \<Longrightarrow>
     start_id \<le> i \<and> i < length buf \<and> k = nmea (drop i buf)"
proof (induction nov nmea S buf start_id m rule: scan.induct)
  case (1 nov nmea S buf start_id m)
  let ?rest = "drop start_id buf"
  note mem = "1.prems"
  show ?case
  proof (cases "start_id < length buf")
    case False
    with mem show ?thesis by (simp add: scan_end)
  next
    case in_buf: True
    consider (frame) "0 < nov ?rest" | (incomplete) "nov ?rest < 0" | (none) "nov ?rest = 0"
      by linarith
    then show ?thesis
    proof cases
      case frame
      from mem have "Nmea_tried i k = Nov_tried start_id (nov ?rest) \<or>
          Nmea_tried i k \<in> set (fst (scan nov nmea S buf (start_id + nat (nov ?rest)) m))"
        unfolding scan_nov_frame [where nov = nov and nmea = nmea and buf = buf and start_id = start_id, OF in_buf frame]
        by simp
      then show ?thesis
      proof
        assume "Nmea_tried i k = Nov_tried start_id (nov ?rest)"
        with in_buf show ?thesis by simp
      next
        assume "Nmea_tried i k \<in> set (fst (scan nov nmea S buf (start_id + nat (nov ?rest)) m))"
        from "1.IH"(1) [OF in_buf refl frame this] show ?thesis by simp
      qed
    next
      case incomplete
      with in_buf mem show ?thesis
        by (simp add: scan_nov_incomplete [where nov = nov and nmea = nmea and buf = buf and start_id = start_id, OF in_buf])
    next
      case none
      consider (frame2) "0 < nmea ?rest" | (incomplete2) "nmea ?rest < 0" | (none2) "nmea ?rest = 0"
        by linarith
      then show ?thesis
      proof cases
        case frame2
        let ?msg = "take (nat (nmea ?rest)) ?rest"
        show ?thesis
        proof (cases "NmeaConvertAndPublish S ?msg m")
          case (Inl e)
          with in_buf none mem show ?thesis
            unfolding scan_nmea_frame [where nov = nov and nmea = nmea and buf = buf and start_id = start_id, OF in_buf none frame2] by simp
        next
          case (Inr r)
          obtain calls m' where r: "r = (calls, m')" by (cases r)
          from none have n: "\<not> 0 < nov ?rest" "\<not> nov ?rest < 0" by simp_all
          note ih = "1.IH"(2) [OF in_buf refl n refl frame2 refl Inr r [symmetric]]
          from NmeaConvertAndPublish_calls [OF Inr [unfolded r]]
          have c: "Nmea_tried i k \<notin> set calls" by auto
          from mem c have "Nmea_tried i k = Nov_tried start_id 0 \<or> Nmea_tried i k = Nmea_tried start_id (nmea ?rest) \<or>
            Nmea_tried i k \<in> set (fst (scan nov nmea S buf (start_id + nat (nmea ?rest)) m'))"
            unfolding scan_nmea_frame [where nov = nov and nmea = nmea and buf = buf and start_id = start_id, OF in_buf none frame2] Inr r
            by simp
          then show ?thesis
          proof (elim disjE)
            assume "Nmea_tried i k \<in> set (fst (scan nov nmea S buf (start_id + nat (nmea ?rest)) m'))"
            from ih [OF this] show ?thesis by simp
          qed (use in_buf none in simp_all)
        qed
      next
        case incomplete2
        with in_buf none mem show ?thesis
          by (simp add: scan_nmea_incomplete [where nov = nov and nmea = nmea and buf = buf and start_id = start_id, OF in_buf none])
      next
        case none2
        from none none2 have n: "\<not> 0 < nov ?rest" "\<not> nov ?rest < 0"
          "\<not> 0 < nmea ?rest" "\<not> nmea ?rest < 0" by simp_all
        from mem have "Nmea_tried i k = Nov_tried start_id 0 \<or> Nmea_tried i k = Nmea_tried start_id 0 \<or>
            Nmea_tried i k \<in> set (fst (scan nov nmea S buf (start_id + 1) m))"
          unfolding scan_no_match [where nov = nov and nmea = nmea and buf = buf and start_id = start_id, OF in_buf none none2]
          by simp
        then show ?thesis
        proof (elim disjE)
          assume "Nmea_tried i k \<in> set (fst (scan nov nmea S buf (start_id + 1) m))"
          from "1.IH"(3) [OF in_buf refl n(1,2) refl n(3,4) this] show ?thesis by simp
        qed (use in_buf none none2 in simp_all)
      qed
    qed
  qed
qed

lemma scan_nonempty:
  assumes "start_id < length buf"
  shows "fst (scan nov nmea S buf start_id m) \<noteq> []"
proof -
  let ?rest = "drop start_id buf"
  consider (frame) "0 < nov ?rest" | (incomplete) "nov ?rest < 0"
    | (frame2) "nov ?rest = 0" "0 < nmea ?rest" | (incomplete2) "nov ?rest = 0" "nmea ?rest < 0"
    | (none2) "nov ?rest = 0" "nmea ?rest = 0"
    by linarith
  then show ?thesis
  proof cases
    case frame
    then show ?thesis
      by (simp add: scan_nov_frame [where nov = nov and nmea = nmea and buf = buf and start_id = start_id, OF assms])
  next
    case incomplete
    then show ?thesis
      by (simp add: scan_nov_incomplete [where nov = nov and nmea = nmea and buf = buf and start_id = start_id, OF assms])
  next
    case frame2
    then show ?thesis
      by (simp add: scan_nmea_frame [where nov = nov and nmea = nmea and buf = buf and start_id = start_id, OF assms]
          split: sum.splits)
  next
    case incomplete2
    then show ?thesis
      by (simp add: scan_nmea_incomplete [where nov = nov and nmea = nmea and buf = buf and start_id = start_id, OF assms])
  next
    case none2
    then show ?thesis
      by (simp add: scan_no_match [where nov = nov and nmea = nmea and buf = buf and start_id = start_id, OF assms])
  qed
qed

lemma successively_middle:
  assumes "successively P (pre @ x # post)"
  shows "pre \<noteq> [] \<Longrightarrow> P (last pre) x" and "post \<noteq> [] \<Longrightarrow> P x (hd post)"
  using assms by (auto simp: successively_append_iff successively_Cons)

text \<open>
  C4. In every pass, from any offset: the first call at the offset is one of the binary
  matcher; a call of the ascii matcher comes directly after a call of the binary matcher
  at the same offset that answered 0; and a call of the binary matcher that answered
  "incomplete" is the last event of the pass, so that the ascii matcher is not called at
  that offset and no later offset is looked at. The events record the answers the
  matchers gave on the bytes from the offset on.
\<close>

theorem scan_binary_before_ascii:
  "(start_id < length buf \<longrightarrow>
      (\<exists>k rest. fst (scan nov nmea S buf start_id m) = Nov_tried start_id k # rest)) \<and>
   (\<forall>pre post i k. fst (scan nov nmea S buf start_id m) = pre @ Nmea_tried i k # post \<longrightarrow>
      (\<exists>pre'. pre = pre' @ [Nov_tried i 0]) \<and> nov (drop i buf) = 0 \<and> k = nmea (drop i buf)) \<and>
   (\<forall>pre post i k. fst (scan nov nmea S buf start_id m) = pre @ Nov_tried i k # post \<longrightarrow>
      k = nov (drop i buf) \<and> (k < 0 \<longrightarrow> post = []))"
proof (intro conjI allI impI)
  let ?evs = "fst (scan nov nmea S buf start_id m)"
  note ord = scan_in_order [of nov nmea S buf start_id m]
  {
    assume "start_id < length buf"
    from scan_nonempty [OF this, of nov nmea S m] ord
    show "\<exists>k rest. ?evs = Nov_tried start_id k # rest"
      by (cases ?evs) auto
  }
  {
    fix pre post i k
    assume e: "?evs = pre @ Nmea_tried i k # post"
    have "pre \<noteq> []"
    proof
      assume "pre = []"
      with e ord show False by simp
    qed
    moreover from ord e have "successively in_order (pre @ Nmea_tried i k # post)" by simp
    ultimately have "in_order (last pre) (Nmea_tried i k)"
      by (rule successively_middle(1) [rotated])
    then have l: "last pre = Nov_tried i 0"
      by (simp add: in_order_def)
    with \<open>pre \<noteq> []\<close> have p: "pre = butlast pre @ [Nov_tried i 0]"
      by (metis append_butlast_last_id)
    then show "\<exists>pre'. pre = pre' @ [Nov_tried i 0]" ..
    from e have "?evs = butlast pre @ Nov_tried i 0 # Nmea_tried i k # post"
      by (subst (asm) p) simp
    then have "Nov_tried i 0 \<in> set ?evs"
      by simp
    from scan_Nov_tried [OF this] show "nov (drop i buf) = 0"
      by simp
    from e have "Nmea_tried i k \<in> set ?evs" by simp
    from scan_Nmea_tried [OF this] show "k = nmea (drop i buf)"
      by simp
  }
  {
    fix pre post i k
    assume e: "?evs = pre @ Nov_tried i k # post"
    then have "Nov_tried i k \<in> set ?evs" by simp
    from scan_Nov_tried [OF this] show "k = nov (drop i buf)"
      by simp
    assume k: "k < 0"
    show "post = []"
    proof (rule ccontr)
      assume "post \<noteq> []"
      moreover from ord e have "successively in_order (pre @ Nov_tried i k # post)" by simp
      ultimately have "in_order (Nov_tried i k) (hd post)"
        by (rule successively_middle(2) [rotated])
      with k show False by (simp add: in_order_def)
    qed
  }
qed

lemma scan_example_incomplete:
  "scan (IsNovMessage_spec crc32) IsNmeaMessage_spec SplitMessage_spec
     (''a'' @ nov_sync @ ''$FP'') 0 Map.empty =
   ([Nov_tried 0 0, Nmea_tried 0 0, Advance 0, Nov_tried 1 (- 1)], None, Map.empty)"
  by (simp add: scan.simps IsNovMessage_spec_def IsNmeaMessage_spec_def nov_sync_def)

theorem scan_binary_before_ascii_witness:
  "\<forall>crc32.
     fst (scan (IsNovMessage_spec crc32) IsNmeaMessage_spec SplitMessage_spec
            (''a'' @ nov_sync @ ''$FP'') 0 Map.empty) =
       [Nov_tried 0 0, Nmea_tried 0 0, Advance 0, Nov_tried 1 (- 1)] \<and>
     IsNovMessage_spec crc32 (drop 0 (''a'' @ nov_sync @ ''$FP'')) = 0 \<and>
     IsNmeaMessage_spec (drop 0 (''a'' @ nov_sync @ ''$FP'')) = 0 \<and>
     IsNovMessage_spec crc32 (drop 1 (''a'' @ nov_sync @ ''$FP'')) = - 1"
proof (intro allI)
  fix crc32 :: "string \<Rightarrow> string"
  let ?buf = "''a'' @ nov_sync @ ''$FP''"
  let ?evs = "fst (scan (IsNovMessage_spec crc32) IsNmeaMessage_spec SplitMessage_spec ?buf 0 Map.empty)"
  note t = scan_binary_before_ascii [of 0 ?buf "IsNovMessage_spec crc32" IsNmeaMessage_spec
      SplitMessage_spec Map.empty]
  have e: "?evs = [Nov_tried 0 0, Nmea_tried 0 0, Advance 0, Nov_tried 1 (- 1)]"
    by (simp only: scan_example_incomplete fst_conv)
  then have e1: "?evs = [Nov_tried 0 0] @ Nmea_tried 0 0 # [Advance 0, Nov_tried 1 (- 1)]"
    and e2: "?evs = [Nov_tried 0 0, Nmea_tried 0 0, Advance 0] @ Nov_tried 1 (- 1) # []"
    by simp_all
  from t [THEN conjunct2, THEN conjunct1, rule_format, OF e1]
  have a: "IsNovMessage_spec crc32 (drop 0 ?buf) = 0 \<and> 0 = IsNmeaMessage_spec (drop 0 ?buf)"
    by blast
  from t [THEN conjunct2, THEN conjunct2, rule_format, OF e2]
  have b: "- 1 = IsNovMessage_spec crc32 (drop 1 ?buf)"
    by blast
  from e a b show "?evs = [Nov_tried 0 0, Nmea_tried 0 0, Advance 0, Nov_tried 1 (- 1)] \<and>
     IsNovMessage_spec crc32 (drop 0 ?buf) = 0 \<and>
     IsNmeaMessage_spec (drop 0 ?buf) = 0 \<and>
     IsNovMessage_spec crc32 (drop 1 ?buf) = - 1"
    by simp
qed


lemma skip_events_0 [simp]: "skip_events start_id 0 = []"
  by (simp add: skip_events_def)

lemma skip_events_Suc:
  "skip_events start_id (Suc n) =
     [Nov_tried start_id 0, Nmea_tried start_id 0, Advance start_id] @ skip_events (Suc start_id) n"
  by (simp add: skip_events_def upt_rec [of start_id])


lemma skip_events_frames: "frames (skip_events start_id n) = []"
  by (induction n arbitrary: start_id) (simp_all add: skip_events_Suc frames_def)





lemma dispatch_FP_ODOMETRY_empty:
  "NmeaConvertAndPublish SplitMessage_spec ''$FP,ODOMETRY*1A'' Map.empty =
     Inr ([], [''ODOMETRY'' \<mapsto> None])"
proof -
  have "sentence_tokens SplitMessage_spec ''$FP,ODOMETRY*1A'' = Inr [''FP'', ''ODOMETRY'']"
    by (simp add: sentence_tokens_def find_last_of_def substr_def)
  from NmeaConvertAndPublish_tokens [OF this] show ?thesis by simp
qed


subsection \<open>Read cycles\<close>

lemma frames_append [simp]: "frames (xs @ ys) = frames xs @ frames ys"
  by (simp add: frames_def)

lemma frames_Nil [simp]: "frames [] = []"
  by (simp add: frames_def)

lemma frames_calls:
  assumes "NmeaConvertAndPublish S msg m = Inr (calls, m')"
  shows "frames calls = []"
  using NmeaConvertAndPublish_calls [OF assms] by (auto simp: frames_def)

lemma scan_suffix:
  "frames (fst (scan nov nmea S (a @ b) (length a + t) m)) = frames (fst (scan nov nmea S b t m)) \<and>
   snd (scan nov nmea S (a @ b) (length a + t) m) = snd (scan nov nmea S b t m)"
proof (induction nov nmea S b t m rule: scan.induct)
  case (1 nov nmea S b t m)
  let ?rest = "drop t b"
  let ?s = "length a + t"
  have d: "drop ?s (a @ b) = ?rest" by simp
  show ?case
  proof (cases "t < length b")
    case False
    then show ?thesis by (simp add: scan_end)
  next
    case in_buf: True
    then have in_buf': "?s < length (a @ b)" by simp
    consider (frame) "0 < nov ?rest" | (incomplete) "nov ?rest < 0" | (none) "nov ?rest = 0"
      by linarith
    then show ?thesis
    proof cases
      case frame
      then have frame': "0 < nov (drop ?s (a @ b))" by (simp only: d)
      from "1.IH"(1) [OF in_buf refl frame] show ?thesis
        unfolding scan_nov_frame [where nov = nov and nmea = nmea and buf = b and start_id = t, OF in_buf frame]
          scan_nov_frame [where nov = nov and nmea = nmea and buf = "a @ b" and start_id = ?s, OF in_buf' frame']
        unfolding d by (simp add: frames_def add.assoc)
    next
      case incomplete
      then have incomplete': "nov (drop ?s (a @ b)) < 0" by (simp only: d)
      show ?thesis
        unfolding scan_nov_incomplete [where nov = nov and nmea = nmea and buf = b and start_id = t, OF in_buf incomplete]
          scan_nov_incomplete [where nov = nov and nmea = nmea and buf = "a @ b" and start_id = ?s, OF in_buf' incomplete']
        by (simp add: frames_def)
    next
      case none
      then have none': "nov (drop ?s (a @ b)) = 0" by (simp only: d)
      consider (frame2) "0 < nmea ?rest" | (incomplete2) "nmea ?rest < 0" | (none2) "nmea ?rest = 0"
        by linarith
      then show ?thesis
      proof cases
        case frame2
        then have frame2': "0 < nmea (drop ?s (a @ b))" by (simp only: d)
        let ?msg = "take (nat (nmea ?rest)) ?rest"
        show ?thesis
        proof (cases "NmeaConvertAndPublish S ?msg m")
          case (Inl e)
          then show ?thesis
            unfolding scan_nmea_frame [where nov = nov and nmea = nmea and buf = b and start_id = t, OF in_buf none frame2]
              scan_nmea_frame [where nov = nov and nmea = nmea and buf = "a @ b" and start_id = ?s, OF in_buf' none' frame2']
            unfolding d by (simp add: frames_def)
        next
          case (Inr r)
          obtain calls m' where r: "r = (calls, m')" by (cases r)
          from none have n: "\<not> 0 < nov ?rest" "\<not> nov ?rest < 0" by simp_all
          note ih = "1.IH"(2) [OF in_buf refl n refl frame2 refl Inr r [symmetric]]
          from ih show ?thesis
            unfolding scan_nmea_frame [where nov = nov and nmea = nmea and buf = b and start_id = t, OF in_buf none frame2]
              scan_nmea_frame [where nov = nov and nmea = nmea and buf = "a @ b" and start_id = ?s, OF in_buf' none' frame2']
            unfolding d Inr r by (simp add: frames_def add.assoc)
        qed
      next
        case incomplete2
        then have incomplete2': "nmea (drop ?s (a @ b)) < 0" by (simp only: d)
        show ?thesis
          unfolding scan_nmea_incomplete [where nov = nov and nmea = nmea and buf = b and start_id = t, OF in_buf none incomplete2]
            scan_nmea_incomplete [where nov = nov and nmea = nmea and buf = "a @ b" and start_id = ?s, OF in_buf' none' incomplete2']
          by (simp add: frames_def)
      next
        case none2
        then have none2': "nmea (drop ?s (a @ b)) = 0" by (simp only: d)
        from none none2 have n: "\<not> 0 < nov ?rest" "\<not> nov ?rest < 0"
          "\<not> 0 < nmea ?rest" "\<not> nmea ?rest < 0" by simp_all
        from "1.IH"(3) [OF in_buf refl n(1,2) refl n(3,4)] show ?thesis
          unfolding scan_no_match [where nov = nov and nmea = nmea and buf = b and start_id = t, OF in_buf none none2]
            scan_no_match [where nov = nov and nmea = nmea and buf = "a @ b" and start_id = ?s, OF in_buf' none' none2']
          by (simp add: frames_def add.assoc)
      qed
    qed
  qed
qed

lemma emit_eq_iff: "emit es r = (evs, x) \<longleftrightarrow> (\<exists>evs'. r = (evs', x) \<and> evs = es @ evs')"
  by (cases r) auto

lemma scan_prefix:
  assumes "\<forall>i. start_id \<le> i \<and> i < length a \<longrightarrow>
        nov (drop i (a @ b)) = nov (drop i a) \<and> nmea (drop i (a @ b)) = nmea (drop i a) \<and>
        nov (drop i a) \<le> int (length a - i) \<and> nmea (drop i a) \<le> int (length a - i)"
    and "scan nov nmea S a start_id m = (evs, None, m')"
    and "\<forall>e \<in> set evs. \<not> is_incomplete e"
    and "start_id \<le> length a"
  shows "scan nov nmea S (a @ b) start_id m = emit evs (scan nov nmea S (a @ b) (length a) m')"
  using assms
proof (induction nov nmea S a start_id m arbitrary: evs rule: scan.induct)
  case (1 nov nmea S a start_id m)
  let ?rest = "drop start_id a"
  note same = "1.prems"(1) and res = "1.prems"(2) and complete = "1.prems"(3) and le = "1.prems"(4)
  show ?case
  proof (cases "start_id < length a")
    case False
    with le have "start_id = length a" by simp
    moreover from False res have "evs = []" "m' = m" by (simp_all add: scan_end)
    ultimately show ?thesis by simp
  next
    case in_buf: True
    then have in_buf': "start_id < length (a @ b)" by simp
    from same in_buf have s: "nov (drop start_id (a @ b)) = nov ?rest"
      "nmea (drop start_id (a @ b)) = nmea ?rest"
      and fit: "nov ?rest \<le> int (length a - start_id)" "nmea ?rest \<le> int (length a - start_id)"
      by simp_all
    have same': "\<forall>i. start_id + k \<le> i \<and> i < length a \<longrightarrow>
        nov (drop i (a @ b)) = nov (drop i a) \<and> nmea (drop i (a @ b)) = nmea (drop i a) \<and>
        nov (drop i a) \<le> int (length a - i) \<and> nmea (drop i a) \<le> int (length a - i)" for k
      using same by simp
    have tk: "take k (drop start_id (a @ b)) = take k ?rest" if "int k \<le> int (length a - start_id)" for k
      using that by simp
    consider (frame) "0 < nov ?rest" | (incomplete) "nov ?rest < 0" | (none) "nov ?rest = 0"
      by linarith
    then show ?thesis
    proof cases
      case frame
      then have frame': "0 < nov (drop start_id (a @ b))" by (simp only: s)
      let ?n = "nat (nov ?rest)"
      from fit frame have le': "start_id + ?n \<le> length a" by linarith
      from fit frame have t: "take ?n (drop start_id (a @ b)) = take ?n ?rest"
        by (intro tk) simp
      from res obtain evs' where r: "scan nov nmea S a (start_id + ?n) m = (evs', None, m')"
        and e: "evs = [Nov_tried start_id (nov ?rest), Nov_frame (take ?n ?rest)] @ evs'"
        unfolding scan_nov_frame [where nov = nov and nmea = nmea and buf = a and start_id = start_id, OF in_buf frame]
        by (auto simp: emit_eq_iff)
      from complete e have c: "\<forall>e \<in> set evs'. \<not> is_incomplete e" by simp
      from "1.IH"(1) [OF in_buf refl frame same' r c le'] show ?thesis
        unfolding scan_nov_frame [where nov = nov and nmea = nmea and buf = "a @ b" and start_id = start_id, OF in_buf' frame']
        unfolding s t e by (simp add: emit_emit)
    next
      case incomplete
      with res complete show ?thesis
        unfolding scan_nov_incomplete [where nov = nov and nmea = nmea and buf = a and start_id = start_id, OF in_buf incomplete]
        by auto
    next
      case none
      then have none': "nov (drop start_id (a @ b)) = 0" by (simp only: s)
      consider (frame2) "0 < nmea ?rest" | (incomplete2) "nmea ?rest < 0" | (none2) "nmea ?rest = 0"
        by linarith
      then show ?thesis
      proof cases
        case frame2
        then have frame2': "0 < nmea (drop start_id (a @ b))" by (simp only: s)
        let ?n = "nat (nmea ?rest)"
        let ?msg = "take ?n ?rest"
        from fit frame2 have le': "start_id + ?n \<le> length a" by linarith
        from fit frame2 have t: "take ?n (drop start_id (a @ b)) = ?msg"
          by (intro tk) simp
        show ?thesis
        proof (cases "NmeaConvertAndPublish S ?msg m")
          case (Inl e)
          with res show ?thesis
            unfolding scan_nmea_frame [where nov = nov and nmea = nmea and buf = a and start_id = start_id, OF in_buf none frame2]
            by simp
        next
          case (Inr r)
          obtain calls m1 where r: "r = (calls, m1)" by (cases r)
          from none have n: "\<not> 0 < nov ?rest" "\<not> nov ?rest < 0" by simp_all
          from res obtain evs' where r': "scan nov nmea S a (start_id + ?n) m1 = (evs', None, m')"
            and e: "evs = ([Nov_tried start_id 0, Nmea_tried start_id (nmea ?rest), Nmea_frame ?msg] @ calls) @ evs'"
            unfolding scan_nmea_frame [where nov = nov and nmea = nmea and buf = a and start_id = start_id, OF in_buf none frame2]
              Inr r
            by (auto simp: emit_eq_iff)
          from complete e have c: "\<forall>e \<in> set evs'. \<not> is_incomplete e" by simp
          from "1.IH"(2) [OF in_buf refl n refl frame2 refl Inr r [symmetric] same' r' c le']
          show ?thesis
            unfolding scan_nmea_frame [where nov = nov and nmea = nmea and buf = "a @ b" and start_id = start_id, OF in_buf' none' frame2']
            unfolding s t e Inr r by (simp add: emit_emit)
        qed
      next
        case incomplete2
        with res complete show ?thesis
          unfolding scan_nmea_incomplete [where nov = nov and nmea = nmea and buf = a and start_id = start_id, OF in_buf none incomplete2]
          by auto
      next
        case none2
        then have none2': "nmea (drop start_id (a @ b)) = 0" by (simp only: s)
        from none none2 have n: "\<not> 0 < nov ?rest" "\<not> nov ?rest < 0"
          "\<not> 0 < nmea ?rest" "\<not> nmea ?rest < 0" by simp_all
        from in_buf have le': "start_id + 1 \<le> length a" by simp
        from res obtain evs' where r: "scan nov nmea S a (start_id + 1) m = (evs', None, m')"
          and e: "evs = [Nov_tried start_id 0, Nmea_tried start_id 0, Advance start_id] @ evs'"
          unfolding scan_no_match [where nov = nov and nmea = nmea and buf = a and start_id = start_id, OF in_buf none none2]
          by (auto simp: emit_eq_iff)
        from complete e have c: "\<forall>e \<in> set evs'. \<not> is_incomplete e" by simp
        from "1.IH"(3) [OF in_buf refl n(1,2) refl n(3,4) same' r c le'] show ?thesis
          unfolding scan_no_match [where nov = nov and nmea = nmea and buf = "a @ b" and start_id = start_id, OF in_buf' none' none2']
          unfolding e by (simp add: emit_emit)
      qed
    qed
  qed
qed

lemma ReadAndPublish_deliver:
  assumes "ty \<noteq> UNKNOWN" and "bytes \<noteq> []"
  shows "ReadAndPublish nov nmea S ty (deliver bytes) m =
     (case scan nov nmea S bytes 0 m of
        (evs, None, m') \<Rightarrow> (evs, Inr True, m')
      | (evs, Some e, m') \<Rightarrow> (evs, Inl e, m'))"
proof -
  from assms(2) have "0 < ret (deliver bytes)" by (simp add: deliver_def)
  from ReadAndPublish_data [OF assms(1) this] show ?thesis
    by (simp add: deliver_def)
qed

lemma fst_ReadAndPublish_deliver:
  assumes "ty \<noteq> UNKNOWN" and "bytes \<noteq> []"
  shows "fst (ReadAndPublish nov nmea S ty (deliver bytes) m) = fst (scan nov nmea S bytes 0 m)"
  unfolding ReadAndPublish_deliver [OF assms]
  by (simp split: prod.splits option.splits)

lemma fst_read_cycles_one:
  "fst (read_cycles nov nmea S ty [io] m) = fst (ReadAndPublish nov nmea S ty io m)"
  by (simp split: prod.splits sum.splits bool.splits)

lemma read_cycles_two:
  assumes "ty \<noteq> UNKNOWN" and "a \<noteq> []" and "b \<noteq> []"
    and "scan nov nmea S a 0 m = (evs, None, m')"
  shows "fst (read_cycles nov nmea S ty [deliver a, deliver b] m) = evs @ fst (scan nov nmea S b 0 m')"
proof -
  have "ReadAndPublish nov nmea S ty (deliver a) m = (evs, Inr True, m')"
    unfolding ReadAndPublish_deliver [OF assms(1,2)] assms(4) by simp
  then have "read_cycles nov nmea S ty [deliver a, deliver b] m =
      emit evs (read_cycles nov nmea S ty [deliver b] m')"
    by simp
  then show ?thesis
    by (simp only: fst_emit fst_read_cycles_one fst_ReadAndPublish_deliver [OF assms(1,3)])
qed

lemma scan_one_read:
  assumes "\<forall>i < length a.
        nov (drop i (a @ b)) = nov (drop i a) \<and> nmea (drop i (a @ b)) = nmea (drop i a) \<and>
        nov (drop i a) \<le> int (length a - i) \<and> nmea (drop i a) \<le> int (length a - i)"
    and "scan nov nmea S a 0 m = (evs, None, m')"
    and "\<forall>e \<in> set evs. \<not> is_incomplete e"
  shows "frames (fst (scan nov nmea S (a @ b) 0 m)) = frames (evs @ fst (scan nov nmea S b 0 m'))"
proof -
  from assms(1) have "\<forall>i. 0 \<le> i \<and> i < length a \<longrightarrow>
        nov (drop i (a @ b)) = nov (drop i a) \<and> nmea (drop i (a @ b)) = nmea (drop i a) \<and>
        nov (drop i a) \<le> int (length a - i) \<and> nmea (drop i a) \<le> int (length a - i)"
    by simp
  from scan_prefix [OF this assms(2,3)]
  have "scan nov nmea S (a @ b) 0 m = emit evs (scan nov nmea S (a @ b) (length a) m')"
    by simp
  moreover from scan_suffix [of nov nmea S a b 0 m']
  have "frames (fst (scan nov nmea S (a @ b) (length a) m')) = frames (fst (scan nov nmea S b 0 m'))"
    by simp
  ultimately show ?thesis by simp
qed

text \<open>
  C1, as the code has it. \<open>readBuf\<close> is a local array of \<open>ReadAndPublish\<close> and nothing of
  it is kept: after a read of \<open>a\<close> whose pass ends without an exception (on an incomplete
  frame or at the end of the bytes), the next cycle scans the bytes \<open>b\<close> of its own read
  from offset 0, so that the events of the two cycles are those of the pass over \<open>a\<close>
  followed by those of a pass over \<open>b\<close> alone. The two reads give the same frames as one
  read of \<open>a @ b\<close> when the pass over \<open>a\<close> reports no incomplete frame, and the matchers
  answer at every offset of \<open>a\<close> as they do when \<open>b\<close> follows, with no frame longer than
  the bytes at hand.
\<close>

theorem read_cycles_keep_no_bytes:
  assumes "ty \<noteq> UNKNOWN" and "a \<noteq> []" and "b \<noteq> []"
    and "scan nov nmea S a 0 m = (evs, None, m')"
  shows "fst (read_cycles nov nmea S ty [deliver a, deliver b] m) = evs @ fst (scan nov nmea S b 0 m') \<and>
     ((\<forall>e \<in> set evs. \<not> is_incomplete e) \<and>
      (\<forall>i < length a.
         nov (drop i (a @ b)) = nov (drop i a) \<and> nmea (drop i (a @ b)) = nmea (drop i a) \<and>
         nov (drop i a) \<le> int (length a - i) \<and> nmea (drop i a) \<le> int (length a - i)) \<longrightarrow>
      frames (fst (read_cycles nov nmea S ty [deliver (a @ b)] m)) =
      frames (fst (read_cycles nov nmea S ty [deliver a, deliver b] m)))"
proof (intro conjI impI)
  show two: "fst (read_cycles nov nmea S ty [deliver a, deliver b] m) =
      evs @ fst (scan nov nmea S b 0 m')"
    by (rule read_cycles_two [OF assms])
  assume h: "(\<forall>e \<in> set evs. \<not> is_incomplete e) \<and>
      (\<forall>i < length a.
         nov (drop i (a @ b)) = nov (drop i a) \<and> nmea (drop i (a @ b)) = nmea (drop i a) \<and>
         nov (drop i a) \<le> int (length a - i) \<and> nmea (drop i a) \<le> int (length a - i))"
  from assms(2) have ab: "a @ b \<noteq> []" by simp
  from h scan_one_read [OF _ assms(4), of b]
  have "frames (fst (scan nov nmea S (a @ b) 0 m)) = frames (evs @ fst (scan nov nmea S b 0 m'))"
    by blast
  then show "frames (fst (read_cycles nov nmea S ty [deliver (a @ b)] m)) =
      frames (fst (read_cycles nov nmea S ty [deliver a, deliver b] m))"
    by (simp only: two fst_read_cycles_one fst_ReadAndPublish_deliver [OF assms(1) ab])
qed

lemma scan_example_LLH:
  "scan (IsNovMessage_spec crc32) IsNmeaMessage_spec SplitMessage_spec ''$FP,LLH*00'' 0 Map.empty =
     ([Nov_tried 0 0, Nmea_tried 0 10, Nmea_frame ''$FP,LLH*00''], None, [''LLH'' \<mapsto> None])"
proof -
  have "sentence_tokens SplitMessage_spec ''$FP,LLH*00'' = Inr [''FP'', ''LLH'']"
    by (simp add: sentence_tokens_def find_last_of_def substr_def)
  from NmeaConvertAndPublish_tokens [OF this, of Map.empty]
  have "NmeaConvertAndPublish SplitMessage_spec ''$FP,LLH*00'' Map.empty = Inr ([], [''LLH'' \<mapsto> None])"
    by simp
  then show ?thesis
    by (simp add: scan.simps IsNovMessage_spec_def IsNmeaMessage_spec_def nov_sync_def)
qed

lemma scan_example_partial:
  "scan (IsNovMessage_spec crc32) IsNmeaMessage_spec SplitMessage_spec ''$FP,ODO'' 0 Map.empty =
     ([Nov_tried 0 0, Nmea_tried 0 (- 1)], None, Map.empty)"
  by (simp add: scan.simps IsNovMessage_spec_def IsNmeaMessage_spec_def nov_sync_def)

lemma scan_example_tail:
  "frames (fst (scan (IsNovMessage_spec crc32) IsNmeaMessage_spec SplitMessage_spec ''METRY*1A'' 0 m)) = []"
  by (simp add: scan.simps IsNovMessage_spec_def IsNmeaMessage_spec_def nov_sync_def frames_def)

lemma scan_example_whole:
  "frames (fst (scan (IsNovMessage_spec crc32) IsNmeaMessage_spec SplitMessage_spec
      ''$FP,ODOMETRY*1A'' 0 Map.empty)) = [Nmea_frame ''$FP,ODOMETRY*1A'']"
  using dispatch_FP_ODOMETRY_empty
  by (simp add: scan.simps IsNovMessage_spec_def IsNmeaMessage_spec_def nov_sync_def frames_def)

theorem read_cycles_keep_no_bytes_witness:
  "\<forall>crc32.
     frames (fst (read_cycles (IsNovMessage_spec crc32) IsNmeaMessage_spec SplitMessage_spec TCP
                    [deliver (''$FP,LLH*00'' @ ''$FP,TF*11'')] Map.empty)) =
     frames (fst (read_cycles (IsNovMessage_spec crc32) IsNmeaMessage_spec SplitMessage_spec TCP
                    [deliver ''$FP,LLH*00'', deliver ''$FP,TF*11''] Map.empty)) \<and>
     fst (read_cycles (IsNovMessage_spec crc32) IsNmeaMessage_spec SplitMessage_spec TCP
            [deliver ''$FP,ODO'', deliver ''METRY*1A''] Map.empty) =
     [Nov_tried 0 0, Nmea_tried 0 (- 1)] @
     fst (scan (IsNovMessage_spec crc32) IsNmeaMessage_spec SplitMessage_spec ''METRY*1A'' 0 Map.empty)"
proof (intro allI conjI)
  fix crc32 :: "string \<Rightarrow> string"
  let ?nov = "IsNovMessage_spec crc32"
  let ?a = "''$FP,LLH*00''" and ?b = "''$FP,TF*11''"
  let ?evs = "[Nov_tried 0 0, Nmea_tried 0 10, Nmea_frame ?a]"
  have ty: "TCP \<noteq> UNKNOWN" and a: "?a \<noteq> []" and b: "?b \<noteq> []" by simp_all
  have complete: "\<forall>e \<in> set ?evs. \<not> is_incomplete e" by simp
  have same: "\<forall>i < length ?a.
      ?nov (drop i (?a @ ?b)) = ?nov (drop i ?a) \<and>
      IsNmeaMessage_spec (drop i (?a @ ?b)) = IsNmeaMessage_spec (drop i ?a) \<and>
      ?nov (drop i ?a) \<le> int (length ?a - i) \<and> IsNmeaMessage_spec (drop i ?a) \<le> int (length ?a - i)"
    by (simp add: All_less_Suc IsNovMessage_spec_def IsNmeaMessage_spec_def nov_sync_def)
  note t = read_cycles_keep_no_bytes [OF ty a b scan_example_LLH [of crc32]]
  from t [THEN conjunct2, rule_format, OF conjI, OF complete same]
  show "frames (fst (read_cycles ?nov IsNmeaMessage_spec SplitMessage_spec TCP
                    [deliver (?a @ ?b)] Map.empty)) =
     frames (fst (read_cycles ?nov IsNmeaMessage_spec SplitMessage_spec TCP
                    [deliver ?a, deliver ?b] Map.empty))" .
  have a': "''$FP,ODO'' \<noteq> []" and b': "''METRY*1A'' \<noteq> []" by simp_all
  from read_cycles_keep_no_bytes [OF ty a' b' scan_example_partial [of crc32], THEN conjunct1]
  show "fst (read_cycles ?nov IsNmeaMessage_spec SplitMessage_spec TCP
            [deliver ''$FP,ODO'', deliver ''METRY*1A''] Map.empty) =
     [Nov_tried 0 0, Nmea_tried 0 (- 1)] @
     fst (scan ?nov IsNmeaMessage_spec SplitMessage_spec ''METRY*1A'' 0 Map.empty)" .
qed

text \<open>
  The claim as the spec has it fails: one read of the sentence yields its frame; split
  into two reads inside the sentence it yields no frame, since the bytes of the first read
  are gone when the second arrives.
\<close>

theorem partial_frame_is_dropped:
  "\<forall>crc32.
     frames (fst (read_cycles (IsNovMessage_spec crc32) IsNmeaMessage_spec SplitMessage_spec TCP
                    [deliver (''$FP,ODO'' @ ''METRY*1A'')] Map.empty)) =
       [Nmea_frame ''$FP,ODOMETRY*1A''] \<and>
     frames (fst (read_cycles (IsNovMessage_spec crc32) IsNmeaMessage_spec SplitMessage_spec TCP
                    [deliver ''$FP,ODO'', deliver ''METRY*1A''] Map.empty)) = []"
proof (intro allI conjI)
  fix crc32 :: "string \<Rightarrow> string"
  let ?nov = "IsNovMessage_spec crc32"
  have ty: "TCP \<noteq> UNKNOWN" by simp
  have w: "''$FP,ODO'' @ ''METRY*1A'' = ''$FP,ODOMETRY*1A''" by simp
  have ne: "''$FP,ODOMETRY*1A'' \<noteq> []" by simp
  show "frames (fst (read_cycles ?nov IsNmeaMessage_spec SplitMessage_spec TCP
                    [deliver (''$FP,ODO'' @ ''METRY*1A'')] Map.empty)) =
       [Nmea_frame ''$FP,ODOMETRY*1A'']"
    unfolding w fst_read_cycles_one fst_ReadAndPublish_deliver [OF ty ne]
    by (rule scan_example_whole)
  have a': "''$FP,ODO'' \<noteq> []" and b': "''METRY*1A'' \<noteq> []" by simp_all
  show "frames (fst (read_cycles ?nov IsNmeaMessage_spec SplitMessage_spec TCP
                    [deliver ''$FP,ODO'', deliver ''METRY*1A''] Map.empty)) = []"
    unfolding read_cycles_two [OF ty a' b' scan_example_partial [of crc32]] frames_append
      scan_example_tail
    by (simp add: frames_def)
qed

end
